theory Spec2Isabelle
  imports Main
begin

section \<open>Storage listing: \<^verbatim>\<open>internal/storage/ls/ls.go\<close>\<close>

text \<open>
  A Go \<^verbatim>\<open>string\<close> is a sequence of bytes; it is modelled as \<^typ>\<open>string\<close>, a list of
  8-bit characters. Go's \<^verbatim>\<open>int\<close> indices are \<^typ>\<open>int\<close> where the library returns
  \<open>-1\<close> for "not found", and \<^typ>\<open>nat\<close> once they are known to be positions.
\<close>

subsection \<open>Library functions of package \<^verbatim>\<open>strings\<close> and \<^verbatim>\<open>path\<close>\<close>

definition HasPrefix :: "string \<Rightarrow> string \<Rightarrow> bool" where
  \<comment> \<open>\<^verbatim>\<open>strings.HasPrefix\<close>: \<^verbatim>\<open>len(s) >= len(prefix) && s[:len(prefix)] == prefix\<close>\<close>
  "HasPrefix s prefix = (length s \<ge> length prefix \<and> take (length prefix) s = prefix)"

definition HasSuffix :: "string \<Rightarrow> string \<Rightarrow> bool" where
  \<comment> \<open>\<^verbatim>\<open>strings.HasSuffix\<close>: \<^verbatim>\<open>len(s) >= len(suffix) && s[len(s)-len(suffix):] == suffix\<close>\<close>
  "HasSuffix s suffix = (length s \<ge> length suffix \<and> drop (length s - length suffix) s = suffix)"

definition IndexByte :: "string \<Rightarrow> char \<Rightarrow> int" where
  \<comment> \<open>\<^verbatim>\<open>strings.IndexByte(s, c)\<close>: the index of the first \<open>c\<close> in \<open>s\<close>, or \<open>-1\<close>\<close>
  "IndexByte s c =
     (if c \<in> set s then int (length (takeWhile (\<lambda>x. x \<noteq> c) s)) else - 1)"

definition LastIndexByte :: "string \<Rightarrow> char \<Rightarrow> int" where
  \<comment> \<open>\<^verbatim>\<open>strings.LastIndexByte(s, c)\<close>: the index of the last \<open>c\<close> in \<open>s\<close>, or \<open>-1\<close>\<close>
  "LastIndexByte s c =
     (if c \<in> set s
      then int (length s) - 1 - int (length (takeWhile (\<lambda>x. x \<noteq> c) (rev s)))
      else - 1)"

definition slice :: "string \<Rightarrow> nat \<Rightarrow> nat \<Rightarrow> string" where
  \<comment> \<open>the slice expression \<^verbatim>\<open>s[lo:hi]\<close>, for \<open>lo \<le> hi \<le> len(s)\<close>\<close>
  "slice s lo hi = take (hi - lo) (drop lo s)"

definition path_Split :: "string \<Rightarrow> string \<times> string" where
  \<comment> \<open>\<^verbatim>\<open>path.Split\<close>: splits right after the final slash; no slash gives an empty directory\<close>
  "path_Split p =
     (let i = LastIndexByte p (CHR ''/'')
      in (take (nat (i + 1)) p, drop (nat (i + 1)) p))"

subsection \<open>\<^verbatim>\<open>SplitBucketPrefix\<close>\<close>

definition SplitBucketPrefix :: "string \<Rightarrow> string \<times> string" where
  "SplitBucketPrefix objectPath =
     (if objectPath = '''' \<or> objectPath = ''/'' then ('''', '''')
      else
        let start = (if objectPath ! 0 = CHR ''/'' then 1 else 0 :: nat);
            sep = IndexByte (drop start objectPath) (CHR ''/'')
        in if sep < 0 then (drop start objectPath, '''')
           else (slice objectPath start (nat (sep + int start)),
                 drop (nat (sep + int start + 1)) objectPath))"

text \<open>
  The splitter as the specification words it: the empty path and \<open>/\<close> give two empty
  components; otherwise one leading slash is dropped, the bucket is what stands before
  the first remaining slash and the prefix what stands after it; without a remaining
  slash the whole remainder is the bucket.
\<close>

definition split_spec :: "string \<Rightarrow> string \<times> string" where
  "split_spec p =
     (if p = '''' \<or> p = ''/'' then ('''', '''')
      else
        let r = (if hd p = CHR ''/'' then tl p else p)
        in if CHR ''/'' \<in> set r
           then (takeWhile (\<lambda>c. c \<noteq> CHR ''/'') r, tl (dropWhile (\<lambda>c. c \<noteq> CHR ''/'') r))
           else (r, ''''))"

subsection \<open>Errors, backend responses and effects\<close>

text \<open>
  A Go \<^verbatim>\<open>error\<close> value: the package's own \<^verbatim>\<open>errInvalidURL\<close>, an error of
  \<^verbatim>\<open>net/url\<close>, or any other error (of the backend client or of the consumer), told
  apart by its message.
\<close>

datatype error = errInvalidURL | url_Error string | Error string

text \<open>
  The fields of \<^verbatim>\<open>client.BucketResponse\<close> and \<^verbatim>\<open>client.ObjectResponse\<close> that the
  package reads. \<open>Id\<close> is a \<^verbatim>\<open>*string\<close>: \<^const>\<open>None\<close> is \<^verbatim>\<open>nil\<close>, the backend's
  convention for a folder.
\<close>

record BucketResponse =
  Name :: string

record ObjectResponse =
  Name :: string
  Id :: "string option"

text \<open>
  The backend client (package \<^verbatim>\<open>client\<close>) is a collaborator: its two listing calls
  and its page size are parameters. Every call may change the world \<open>'w\<close> (the
  network, standard output) and returns a result or an error. The arguments are the
  project reference, and for objects the bucket, the prefix and the page index.
\<close>

record 'w client =
  ListStorageBuckets :: "string \<Rightarrow> 'w \<Rightarrow> (error + BucketResponse list) \<times> 'w"
  ListStorageObjects ::
    "string \<Rightarrow> string \<Rightarrow> string \<Rightarrow> nat \<Rightarrow> 'w \<Rightarrow> (error + ObjectResponse list) \<times> 'w"
  PAGE_LIMIT :: nat

text \<open>
  A callback \<^verbatim>\<open>func(string) error\<close> is a closure: besides the world it reads and
  writes the variables it captured, of type \<open>'c\<close>. \<^const>\<open>None\<close> is the \<^verbatim>\<open>nil\<close> error.
\<close>

type_synonym ('c, 'w) callback = "string \<Rightarrow> 'c \<Rightarrow> 'w \<Rightarrow> error option \<times> 'c \<times> 'w"

text \<open>
  The pagination loop and the queue loop need not terminate. Both take fuel, one unit
  per iteration; a run that exhausts it is \<open>OutOfFuel\<close> and hands back the state it
  reached, so that what the program did up to any point can be stated.
\<close>

datatype 'a run = Returned 'a | OutOfFuel

subsection \<open>\<^verbatim>\<open>IterateStoragePaths\<close>\<close>

text \<open>The loop over the buckets of one response (source lines 67 to 73).\<close>

fun for_buckets ::
  "string \<Rightarrow> ('c, 'w) callback \<Rightarrow> BucketResponse list \<Rightarrow> 'c \<Rightarrow> 'w \<Rightarrow> error option \<times> 'c \<times> 'w"
where
  "for_buckets bucket callback [] c w = (None, c, w)"
| "for_buckets bucket callback (b # buckets) c w =
     (if HasPrefix (BucketResponse.Name b) bucket
      then (case callback (BucketResponse.Name b @ ''/'') c w of
              (Some err, c', w') \<Rightarrow> (Some err, c', w')
            | (None, c', w') \<Rightarrow> for_buckets bucket callback buckets c' w')
      else for_buckets bucket callback buckets c w)"

text \<open>The loop over the objects of one page (source lines 81 to 89).\<close>

definition object_name :: "ObjectResponse \<Rightarrow> string" where
  "object_name o' =
     (let name = ObjectResponse.Name o'
      in if Id o' = None then name @ ''/'' else name)"

fun for_objects ::
  "('c, 'w) callback \<Rightarrow> ObjectResponse list \<Rightarrow> 'c \<Rightarrow> 'w \<Rightarrow> error option \<times> 'c \<times> 'w"
where
  "for_objects callback [] c w = (None, c, w)"
| "for_objects callback (o' # objects) c w =
     (case callback (object_name o') c w of
        (Some err, c', w') \<Rightarrow> (Some err, c', w')
      | (None, c', w') \<Rightarrow> for_objects callback objects c' w')"

text \<open>
  The loop over the pages (source lines 75 to 95), with the loop variables \<open>i\<close> and
  \<open>pages\<close>. The progress line written to standard error is not modelled.
\<close>

fun for_pages ::
  "nat \<Rightarrow> 'w client \<Rightarrow> string \<Rightarrow> string \<Rightarrow> string \<Rightarrow> ('c, 'w) callback \<Rightarrow> nat \<Rightarrow> nat \<Rightarrow>
   'c \<Rightarrow> 'w \<Rightarrow> error option run \<times> 'c \<times> 'w"
where
  "for_pages 0 cl projectRef bucket prefix callback i pages c w = (OutOfFuel, c, w)"
| "for_pages (Suc fuel) cl projectRef bucket prefix callback i pages c w =
     (if i < pages then
        (case ListStorageObjects cl projectRef bucket prefix i w of
           (Inl err, w1) \<Rightarrow> (Returned (Some err), c, w1)
         | (Inr objects, w1) \<Rightarrow>
             (case for_objects callback objects c w1 of
                (Some err, c2, w2) \<Rightarrow> (Returned (Some err), c2, w2)
              | (None, c2, w2) \<Rightarrow>
                  for_pages fuel cl projectRef bucket prefix callback (i + 1)
                    (if length objects = PAGE_LIMIT cl then pages + 1 else pages) c2 w2))
      else (Returned None, c, w))"

definition IterateStoragePaths ::
  "nat \<Rightarrow> 'w client \<Rightarrow> string \<Rightarrow> string \<Rightarrow> ('c, 'w) callback \<Rightarrow>
   'c \<Rightarrow> 'w \<Rightarrow> error option run \<times> 'c \<times> 'w"
where
  "IterateStoragePaths fuel cl projectRef remotePath callback c w =
     (let (bucket, prefix) = SplitBucketPrefix remotePath
      in if length bucket = 0 \<or> (length prefix = 0 \<and> \<not> HasSuffix remotePath ''/'') then
           (case ListStorageBuckets cl projectRef w of
              (Inl err, w1) \<Rightarrow> (Returned (Some err), c, w1)
            | (Inr buckets, w1) \<Rightarrow>
                (case for_buckets bucket callback buckets c w1 of
                   (r, c2, w2) \<Rightarrow> (Returned r, c2, w2)))
         else for_pages fuel cl projectRef bucket prefix callback 0 1 c w)"

text \<open>
  \<^verbatim>\<open>ListStoragePaths\<close> collects the names in the slice \<open>result\<close>, which its callback
  captures, and returns it with the error.
\<close>

definition collect :: "(string list, 'w) callback" where
  "collect objectName result w = (None, result @ [objectName], w)"

definition ListStoragePaths ::
  "nat \<Rightarrow> 'w client \<Rightarrow> string \<Rightarrow> string \<Rightarrow> 'w \<Rightarrow> string list \<times> error option run \<times> 'w"
where
  "ListStoragePaths fuel cl projectRef remotePath w =
     (case IterateStoragePaths fuel cl projectRef remotePath collect [] w of
        (err, result, w') \<Rightarrow> (result, err, w'))"

subsection \<open>\<^verbatim>\<open>IterateStoragePathsAll\<close>\<close>

text \<open>
  The callback of the first listing (source lines 133 to 140) captures \<open>dirQueue\<close>
  and the caller's callback, whose own captured variables are \<open>c\<close>.
\<close>

definition seed_callback ::
  "string \<Rightarrow> ('c, 'w) callback \<Rightarrow> (string list \<times> 'c, 'w) callback"
where
  "seed_callback basePath callback objectName = (\<lambda>(dirQueue, c) w.
     let objectPath = basePath @ objectName
     in if HasSuffix objectName ''/'' then (None, (dirQueue @ [objectPath], c), w)
        else (case callback objectPath c w of (err, c', w') \<Rightarrow> (err, (dirQueue, c'), w')))"

text \<open>
  The callback of the listings in the loop (source lines 147 to 155) captures
  \<open>dirQueue\<close>, \<open>empty\<close> (here \<open>empty'\<close>) and the caller's callback.
\<close>

definition drain_callback ::
  "string \<Rightarrow> ('c, 'w) callback \<Rightarrow> (string list \<times> bool \<times> 'c, 'w) callback"
where
  "drain_callback dirPath callback objectName = (\<lambda>(dirQueue, empty', c) w.
     let objectPath = dirPath @ objectName
     in if HasSuffix objectName ''/'' then (None, (dirQueue @ [objectPath], False, c), w)
        else (case callback objectPath c w of (err, c', w') \<Rightarrow> (err, (dirQueue, False, c'), w')))"

text \<open>The loop over \<open>dirQueue\<close> (source lines 143 to 165).\<close>

fun drain ::
  "nat \<Rightarrow> 'w client \<Rightarrow> string \<Rightarrow> ('c, 'w) callback \<Rightarrow> string list \<Rightarrow>
   'c \<Rightarrow> 'w \<Rightarrow> error option run \<times> 'c \<times> 'w"
where
  "drain 0 cl projectRef callback dirQueue c w = (OutOfFuel, c, w)"
| "drain (Suc fuel) cl projectRef callback dirQueue c w =
     (if length dirQueue > 0 then
        (let dirPath = last dirQueue;
             dirQueue1 = butlast dirQueue
         in case IterateStoragePaths fuel cl projectRef dirPath
                   (drain_callback dirPath callback) (dirQueue1, True, c) w of
              (OutOfFuel, (dirQueue2, empty', c1), w1) \<Rightarrow> (OutOfFuel, c1, w1)
            | (Returned (Some err), (dirQueue2, empty', c1), w1) \<Rightarrow> (Returned (Some err), c1, w1)
            | (Returned None, (dirQueue2, empty', c1), w1) \<Rightarrow>
                (let (bucket, prefix) = SplitBucketPrefix dirPath
                 in if empty' \<and> length prefix = 0 then
                      (case callback (bucket @ ''/'') c1 w1 of
                         (Some err, c2, w2) \<Rightarrow> (Returned (Some err), c2, w2)
                       | (None, c2, w2) \<Rightarrow> drain fuel cl projectRef callback dirQueue2 c2 w2)
                    else drain fuel cl projectRef callback dirQueue2 c1 w1))
      else (Returned None, c, w))"

definition IterateStoragePathsAll ::
  "nat \<Rightarrow> 'w client \<Rightarrow> string \<Rightarrow> string \<Rightarrow> ('c, 'w) callback \<Rightarrow>
   'c \<Rightarrow> 'w \<Rightarrow> error option run \<times> 'c \<times> 'w"
where
  "IterateStoragePathsAll fuel cl projectRef remotePath callback c w =
     (let basePath = (if \<not> HasSuffix remotePath ''/'' then fst (path_Split remotePath)
                      else remotePath)
      in case IterateStoragePaths fuel cl projectRef remotePath
                (seed_callback basePath callback) ([], c) w of
           (OutOfFuel, (dirQueue, c1), w1) \<Rightarrow> (OutOfFuel, c1, w1)
         | (Returned (Some err), (dirQueue, c1), w1) \<Rightarrow> (Returned (Some err), c1, w1)
         | (Returned None, (dirQueue, c1), w1) \<Rightarrow>
             drain fuel cl projectRef callback dirQueue c1 w1)"

definition ListStoragePathsAll ::
  "nat \<Rightarrow> 'w client \<Rightarrow> string \<Rightarrow> string \<Rightarrow> 'w \<Rightarrow> string list \<times> error option run \<times> 'w"
where
  "ListStoragePathsAll fuel cl projectRef remotePath w =
     (case IterateStoragePathsAll fuel cl projectRef remotePath collect [] w of
        (err, result, w') \<Rightarrow> (result, err, w'))"

subsection \<open>A backend and a consumer that log what happens\<close>

text \<open>
  To state which calls the program issues and in which order, the world is the log of
  the events so far, oldest first: every backend call and every delivery to the
  consumer, each with the error it returned (\<^const>\<open>None\<close> when it succeeded).
\<close>

datatype event =
    BucketsCall string "error option"
  | ObjectsCall string string string nat "error option"
  | Delivery string "error option"

fun failure :: "event \<Rightarrow> error option" where
  "failure (BucketsCall projectRef r) = r"
| "failure (ObjectsCall projectRef bucket prefix i r) = r"
| "failure (Delivery name r) = r"

fun deliveries :: "event list \<Rightarrow> string list" where
  "deliveries [] = []"
| "deliveries (Delivery name r # evs) = name # deliveries evs"
| "deliveries (e # evs) = deliveries evs"

fun backend_calls :: "event list \<Rightarrow> event list" where
  "backend_calls [] = []"
| "backend_calls (Delivery name r # evs) = backend_calls evs"
| "backend_calls (e # evs) = e # backend_calls evs"

text \<open>
  The contents of the storage service at one moment: what each listing call answers.
\<close>

record backend =
  buckets :: "string \<Rightarrow> error + BucketResponse list"
  objects :: "string \<Rightarrow> string \<Rightarrow> string \<Rightarrow> nat \<Rightarrow> error + ObjectResponse list"
  page_limit :: nat

fun error_of :: "error + 'a \<Rightarrow> error option" where
  "error_of (Inl err) = Some err"
| "error_of (Inr x) = None"

definition logged_client :: "backend \<Rightarrow> event list client" where
  "logged_client be =
     \<lparr>ListStorageBuckets = (\<lambda>projectRef log.
        (buckets be projectRef, log @ [BucketsCall projectRef (error_of (buckets be projectRef))])),
      ListStorageObjects = (\<lambda>projectRef bucket prefix i log.
        (objects be projectRef bucket prefix i,
         log @ [ObjectsCall projectRef bucket prefix i
                  (error_of (objects be projectRef bucket prefix i))])),
      PAGE_LIMIT = page_limit be\<rparr>"

text \<open>
  A consumer that decides from the paths it was given before and the new one whether
  to fail, and logs the delivery.
\<close>

definition logged_callback :: "(string list \<Rightarrow> string \<Rightarrow> error option) \<Rightarrow> ('c, event list) callback" where
  "logged_callback policy objectPath c log =
     (let r = policy (deliveries log) objectPath
      in (r, c, log @ [Delivery objectPath r]))"

subsection \<open>\<^verbatim>\<open>net/url\<close>: the parser behind \<^verbatim>\<open>ParseStorageURL\<close>\<close>

text \<open>
  \<^verbatim>\<open>url.Parse\<close> of the Go standard library, transcribed function by function for the
  three fields of \<^verbatim>\<open>url.URL\<close> that the package reads. The fields \<open>Opaque\<close>, \<open>User\<close>,
  \<open>RawPath\<close>, \<open>RawQuery\<close> and \<open>Fragment\<close> are not kept, but every check made while
  they are computed is, since a failed check fails the whole parse. An error of the
  library is \<^const>\<open>url_Error\<close> with the fixed part of its message.

  The parser of the authority component, \<^verbatim>\<open>parseAuthority\<close>, is a parameter of the
  model: it is the part of the library that differs between releases of Go (in what it
  accepts as a host in brackets), and the package rejects every address with a host. It
  is given the text between \<open>//\<close> and the next slash and returns the host or an error.
\<close>

record URL =
  Scheme :: string
  Host :: string
  Path :: string

datatype encoding =
    encodePath | encodePathSegment | encodeHost | encodeZone
  | encodeUserPassword | encodeQueryComponent | encodeFragment

definition is_lower :: "char \<Rightarrow> bool" where
  "is_lower c = (c \<in> set ''abcdefghijklmnopqrstuvwxyz'')"

definition is_upper :: "char \<Rightarrow> bool" where
  "is_upper c = (c \<in> set ''ABCDEFGHIJKLMNOPQRSTUVWXYZ'')"

definition is_digit :: "char \<Rightarrow> bool" where
  "is_digit c = (c \<in> set ''0123456789'')"

definition lower_byte :: "char \<Rightarrow> char" where
  "lower_byte c =
     (case map_of (zip ''ABCDEFGHIJKLMNOPQRSTUVWXYZ'' ''abcdefghijklmnopqrstuvwxyz'') c of
        Some l \<Rightarrow> l
      | None \<Rightarrow> c)"

definition ToLower :: "string \<Rightarrow> string" where
  \<comment> \<open>\<^verbatim>\<open>strings.ToLower\<close> on ASCII text; it is only applied to schemes, which are ASCII\<close>
  "ToLower s = map lower_byte s"

definition Cut :: "string \<Rightarrow> char \<Rightarrow> string \<times> string" where
  \<comment> \<open>\<^verbatim>\<open>strings.Cut\<close> with a separator of one byte, without the flag \<open>found\<close>\<close>
  "Cut s sep =
     (if sep \<in> set s
      then (takeWhile (\<lambda>c. c \<noteq> sep) s, tl (dropWhile (\<lambda>c. c \<noteq> sep) s))
      else (s, ''''))"

fun Index :: "string \<Rightarrow> string \<Rightarrow> int" where
  \<comment> \<open>\<^verbatim>\<open>strings.Index\<close>: where the substring first starts, or \<open>-1\<close>\<close>
  "Index [] substr = (if substr = [] then 0 else - 1)"
| "Index (c # s) substr =
     (if take (length substr) (c # s) = substr then 0
      else (let i = Index s substr in if i < 0 then - 1 else i + 1))"

definition stringContainsCTLByte :: "string \<Rightarrow> bool" where
  "stringContainsCTLByte s = (\<exists>b\<in>set s. of_char b < (32 :: nat) \<or> of_char b = (127 :: nat))"

definition ishex :: "char \<Rightarrow> bool" where
  "ishex c = (is_digit c \<or> c \<in> set ''abcdef'' \<or> c \<in> set ''ABCDEF'')"

definition unhex :: "char \<Rightarrow> nat" where
  "unhex c =
     (if is_digit c then of_char c - of_char (CHR ''0'')
      else if c \<in> set ''abcdef'' then of_char c - of_char (CHR ''a'') + 10
      else if c \<in> set ''ABCDEF'' then of_char c - of_char (CHR ''A'') + 10
      else 0)"

definition shouldEscape :: "char \<Rightarrow> encoding \<Rightarrow> bool" where
  "shouldEscape c mode =
     (if is_lower c \<or> is_upper c \<or> is_digit c then False
      else if (mode = encodeHost \<or> mode = encodeZone)
              \<and> c \<in> set (''!$&'' @ [CHR 0x27] @ ''()*+,;=:[]<>'' @ [CHR 0x22]) then False
      else if c \<in> set ''-_.~'' then False
      else if c \<in> set ''$&+,/:;=?@'' \<and> mode = encodePath then c = CHR ''?''
      else if c \<in> set ''$&+,/:;=?@'' \<and> mode = encodePathSegment then c \<in> set ''/;,?''
      else if c \<in> set ''$&+,/:;=?@'' \<and> mode = encodeUserPassword then c \<in> set ''@/?:''
      else if c \<in> set ''$&+,/:;=?@'' \<and> mode = encodeQueryComponent then True
      else if c \<in> set ''$&+,/:;=?@'' \<and> mode = encodeFragment then False
      else if mode = encodeFragment \<and> c \<in> set ''!()*'' then False
      else True)"

text \<open>
  \<^verbatim>\<open>unescape\<close> first checks every escape and, in a host, every other byte; then it
  decodes.
\<close>

fun check_escapes :: "encoding \<Rightarrow> string \<Rightarrow> error option" where
  "check_escapes mode [] = None"
| "check_escapes mode (c # s) =
     (if c = CHR ''%'' then
        (case s of
           a # b # s' \<Rightarrow>
             if \<not> ishex a \<or> \<not> ishex b then Some (url_Error ''invalid URL escape'')
             else if mode = encodeHost \<and> unhex a < 8 \<and> [a, b] \<noteq> ''25''
               then Some (url_Error ''invalid URL escape'')
             else if mode = encodeZone \<and> [a, b] \<noteq> ''25''
                     \<and> char_of (16 * unhex a + unhex b) \<noteq> CHR '' ''
                     \<and> shouldEscape (char_of (16 * unhex a + unhex b)) encodeHost
               then Some (url_Error ''invalid URL escape'')
             else check_escapes mode s'
         | _ \<Rightarrow> Some (url_Error ''invalid URL escape''))
      else if c = CHR ''+'' then check_escapes mode s
      else if (mode = encodeHost \<or> mode = encodeZone) \<and> of_char c < (128 :: nat)
              \<and> shouldEscape c encodeHost
        then Some (url_Error ''invalid character in host name'')
      else check_escapes mode s)"

fun decode_escapes :: "encoding \<Rightarrow> string \<Rightarrow> string" where
  "decode_escapes mode [] = []"
| "decode_escapes mode (c # s) =
     (if c = CHR ''%'' then
        (case s of
           a # b # s' \<Rightarrow> char_of (16 * unhex a + unhex b) # decode_escapes mode s'
         | _ \<Rightarrow> [])
      else if c = CHR ''+'' then
        (if mode = encodeQueryComponent then CHR '' '' else CHR ''+'') # decode_escapes mode s
      else c # decode_escapes mode s)"

definition unescape :: "string \<Rightarrow> encoding \<Rightarrow> error + string" where
  "unescape s mode =
     (case check_escapes mode s of
        Some err \<Rightarrow> Inl err
      | None \<Rightarrow> Inr (decode_escapes mode s))"

fun getScheme_at :: "string \<Rightarrow> nat \<Rightarrow> string \<Rightarrow> error + string \<times> string" where
  \<comment> \<open>the loop of \<^verbatim>\<open>getScheme\<close> at index \<open>i\<close>, with the bytes from \<open>i\<close> on\<close>
  "getScheme_at rawURL i [] = Inr ('''', rawURL)"
| "getScheme_at rawURL i (c # s) =
     (if is_lower c \<or> is_upper c then getScheme_at rawURL (i + 1) s
      else if is_digit c \<or> c \<in> set ''+-.'' then
        (if i = 0 then Inr ('''', rawURL) else getScheme_at rawURL (i + 1) s)
      else if c = CHR '':'' then
        (if i = 0 then Inl (url_Error ''missing protocol scheme'')
         else Inr (take i rawURL, drop (i + 1) rawURL))
      else Inr ('''', rawURL))"

definition getScheme :: "string \<Rightarrow> error + string \<times> string" where
  "getScheme rawURL = getScheme_at rawURL 0 rawURL"

definition setPath :: "URL \<Rightarrow> string \<Rightarrow> error + URL" where
  "setPath u p =
     (case unescape p encodePath of
        Inl err \<Rightarrow> Inl err
      | Inr path \<Rightarrow> Inr (u\<lparr>Path := path\<rparr>))"

definition parse :: "(string \<Rightarrow> error + string) \<Rightarrow> string \<Rightarrow> error + URL" where
  \<comment> \<open>\<^verbatim>\<open>parse(rawURL, viaRequest)\<close> with \<open>viaRequest = false\<close>\<close>
  "parse parseAuthority rawURL =
     (if stringContainsCTLByte rawURL
        then Inl (url_Error ''net/url: invalid control character in URL'')
      else if rawURL = ''*'' then Inr \<lparr>Scheme = '''', Host = '''', Path = ''*''\<rparr>
      else
        (case getScheme rawURL of
           Inl err \<Rightarrow> Inl err
         | Inr (scheme, rest0) \<Rightarrow>
             (let url = \<lparr>Scheme = ToLower scheme, Host = '''', Path = ''''\<rparr>;
                  rest = (if HasSuffix rest0 ''?'' \<and> count_list rest0 (CHR ''?'') = 1
                          then butlast rest0 else fst (Cut rest0 (CHR ''?'')))
              in if \<not> HasPrefix rest ''/'' \<and> Scheme url \<noteq> '''' then Inr url
                 else if \<not> HasPrefix rest ''/''
                         \<and> CHR '':'' \<in> set (fst (Cut rest (CHR ''/'')))
                   then Inl (url_Error ''first path segment in URL cannot contain colon'')
                 else if (Scheme url \<noteq> '''' \<or> \<not> HasPrefix rest ''///'')
                         \<and> HasPrefix rest ''//'' then
                   (let authority0 = drop 2 rest;
                        i = IndexByte authority0 (CHR ''/'');
                        authority = (if i \<ge> 0 then take (nat i) authority0 else authority0);
                        rest' = (if i \<ge> 0 then drop (nat i) authority0 else '''')
                    in case parseAuthority authority of
                         Inl err \<Rightarrow> Inl err
                       | Inr host \<Rightarrow> setPath (url\<lparr>Host := host\<rparr>) rest')
                 else setPath url rest)))"

definition url_Parse :: "(string \<Rightarrow> error + string) \<Rightarrow> string \<Rightarrow> error + URL" where
  "url_Parse parseAuthority rawURL =
     (let (u, frag) = Cut rawURL (CHR ''#'')
      in case parse parseAuthority u of
           Inl err \<Rightarrow> Inl err
         | Inr url \<Rightarrow>
             if frag = '''' then Inr url
             else (case unescape frag encodeFragment of
                     Inl err \<Rightarrow> Inl err
                   | Inr f \<Rightarrow> Inr url))"

subsection \<open>\<^verbatim>\<open>ParseStorageURL\<close>\<close>

definition STORAGE_SCHEME :: string where
  "STORAGE_SCHEME = ''ss''"

definition ParseStorageURL :: "(string \<Rightarrow> error + string) \<Rightarrow> string \<Rightarrow> error + string" where
  "ParseStorageURL parseAuthority objectPath =
     (case url_Parse parseAuthority objectPath of
        Inl err \<Rightarrow> Inl err
      | Inr parsed \<Rightarrow>
          if ToLower (Scheme parsed) \<noteq> STORAGE_SCHEME \<or> length (Path parsed) = 0
             \<or> length (Host parsed) > 0
          then Inl errInvalidURL
          else Inr (Path parsed))"

subsection \<open>An authority parser\<close>

text \<open>
  One authority parser, for the examples: \<^verbatim>\<open>parseAuthority\<close> as it is in Go 1.20, with
  its helpers. Later releases check more of a host in brackets. It returns the host; the
  user information is checked and dropped.
\<close>

definition validOptionalPort :: "string \<Rightarrow> bool" where
  "validOptionalPort port =
     (if port = '''' then True
      else if port ! 0 \<noteq> CHR '':'' then False
      else list_all is_digit (drop 1 port))"

definition validUserinfo :: "string \<Rightarrow> bool" where
  "validUserinfo s =
     list_all (\<lambda>r. is_upper r \<or> is_lower r \<or> is_digit r
                    \<or> r \<in> set (''-._:~!$&'' @ [CHR 0x27] @ ''()*+,;=%@'')) s"

definition parseHost_go120 :: "string \<Rightarrow> error + string" where
  "parseHost_go120 host =
     (if HasPrefix host ''['' then
        (let i = LastIndexByte host (CHR '']'')
         in if i < 0 then Inl (url_Error ''missing ] in host'')
            else if \<not> validOptionalPort (drop (nat (i + 1)) host)
              then Inl (url_Error ''invalid port after host'')
            else
              (let zone = Index (take (nat i) host) ''%25''
               in if zone \<ge> 0 then
                    (case unescape (take (nat zone) host) encodeHost of
                       Inl err \<Rightarrow> Inl err
                     | Inr host1 \<Rightarrow>
                         (case unescape (slice host (nat zone) (nat i)) encodeZone of
                            Inl err \<Rightarrow> Inl err
                          | Inr host2 \<Rightarrow>
                              (case unescape (drop (nat i) host) encodeHost of
                                 Inl err \<Rightarrow> Inl err
                               | Inr host3 \<Rightarrow> Inr (host1 @ host2 @ host3))))
                  else unescape host encodeHost))
      else
        (let i = LastIndexByte host (CHR '':'')
         in if i \<noteq> - 1 \<and> \<not> validOptionalPort (drop (nat i) host)
              then Inl (url_Error ''invalid port after host'')
            else unescape host encodeHost))"

definition parseAuthority_go120 :: "string \<Rightarrow> error + string" where
  "parseAuthority_go120 authority =
     (let i = LastIndexByte authority (CHR ''@'')
      in case (if i < 0 then parseHost_go120 authority
               else parseHost_go120 (drop (nat (i + 1)) authority)) of
           Inl err \<Rightarrow> Inl err
         | Inr host \<Rightarrow>
             if i < 0 then Inr host
             else
               (let userinfo = take (nat i) authority
                in if \<not> validUserinfo userinfo then Inl (url_Error ''net/url: invalid userinfo'')
                   else if CHR '':'' \<notin> set userinfo then
                     (case unescape userinfo encodeUserPassword of
                        Inl err \<Rightarrow> Inl err
                      | Inr username \<Rightarrow> Inr host)
                   else
                     (let (username, password) = Cut userinfo (CHR '':'')
                      in case unescape username encodeUserPassword of
                           Inl err \<Rightarrow> Inl err
                         | Inr username' \<Rightarrow>
                             (case unescape password encodeUserPassword of
                                Inl err \<Rightarrow> Inl err
                              | Inr password' \<Rightarrow> Inr host))))"

subsection \<open>Notions for stating the properties\<close>

text \<open>
  What holds after a step that may fail: \<open>I\<close> of the captured variables and the world
  if it returned no error (or ran out of fuel), \<open>E err\<close> if it returned \<open>err\<close>. After a
  backend call that succeeded, \<open>A\<close> holds of the answer as well.
\<close>

fun after ::
  "('c \<Rightarrow> 'w \<Rightarrow> bool) \<Rightarrow> (error \<Rightarrow> 'c \<Rightarrow> 'w \<Rightarrow> bool) \<Rightarrow> error option \<times> 'c \<times> 'w \<Rightarrow> bool"
where
  "after I E (None, c, w) = I c w"
| "after I E (Some err, c, w) = E err c w"

fun after_run ::
  "('c \<Rightarrow> 'w \<Rightarrow> bool) \<Rightarrow> (error \<Rightarrow> 'c \<Rightarrow> 'w \<Rightarrow> bool) \<Rightarrow> error option run \<times> 'c \<times> 'w \<Rightarrow> bool"
where
  "after_run I E (Returned r, c, w) = after I E (r, c, w)"
| "after_run I E (OutOfFuel, c, w) = I c w"

fun after_call ::
  "('w \<Rightarrow> bool) \<Rightarrow> (error \<Rightarrow> 'w \<Rightarrow> bool) \<Rightarrow> ('a \<Rightarrow> bool) \<Rightarrow> (error + 'a) \<times> 'w \<Rightarrow> bool"
where
  "after_call I E A (Inl err, w) = E err w"
| "after_call I E A (Inr x, w) = (I w \<and> A x)"

text \<open>
  What the callback of the queue loop does to its captured variables when the caller's
  callback is the collecting one.
\<close>

definition enqueue_or_collect ::
  "string \<Rightarrow> string \<Rightarrow> string list \<times> bool \<times> string list \<Rightarrow> string list \<times> bool \<times> string list" where
  "enqueue_or_collect dirPath name = (\<lambda>(dirQueue, empty', result).
     if HasSuffix name ''/'' then (dirQueue @ [dirPath @ name], False, result)
     else (dirQueue, False, result @ [dirPath @ name]))"

text \<open>
  The error a run returned; none while it has not returned.
\<close>

fun error_returned :: "error option run \<Rightarrow> error option" where
  "error_returned (Returned r) = r"
| "error_returned OutOfFuel = None"

text \<open>
  The events of a run that stopped at the first failure and returned it: no event
  failed when the run returned no error; otherwise only the last event failed, with
  the error that was returned.
\<close>

definition stopped_at_first_error :: "error option \<Rightarrow> event list \<Rightarrow> bool" where
  "stopped_at_first_error r evs =
     (case r of
        None \<Rightarrow> list_all (\<lambda>e. failure e = None) evs
      | Some err \<Rightarrow>
          evs \<noteq> [] \<and> list_all (\<lambda>e. failure e = None) (butlast evs)
          \<and> failure (last evs) = Some err)"

text \<open>
  The paths delivered according to one log are the first of those delivered according
  to another.
\<close>

definition deliveries_prefix :: "event list \<Rightarrow> event list \<Rightarrow> bool" where
  "deliveries_prefix w w' = (\<exists>rest. deliveries w' = deliveries w @ rest)"

text \<open>
  A second backend that answers as the first one wherever the first one succeeds: what
  the storage would have answered had nothing failed.
\<close>

definition answers_kept :: "backend \<Rightarrow> backend \<Rightarrow> bool" where
  "answers_kept be be' =
     (page_limit be' = page_limit be
      \<and> (\<forall>projectRef bs. buckets be projectRef = Inr bs \<longrightarrow> buckets be' projectRef = Inr bs)
      \<and> (\<forall>projectRef bucket prefix i objs.
            objects be projectRef bucket prefix i = Inr objs \<longrightarrow>
            objects be' projectRef bucket prefix i = Inr objs))"

text \<open>
  Two runs side by side, the second one without failures: as long as the first has not
  failed they are in the same state and have delivered the same paths; once the first
  has failed, what it delivered is the beginning of what the second delivers.
\<close>

fun step_related ::
  "error option \<times> 'c \<times> event list \<Rightarrow> error option \<times> 'c \<times> event list \<Rightarrow> bool"
where
  "step_related (None, c1, w1) (r2, c2, w2) =
     (r2 = None \<and> c2 = c1 \<and> deliveries w2 = deliveries w1)"
| "step_related (Some err, c1, w1) (r2, c2, w2) = deliveries_prefix w1 w2"

fun run_related ::
  "error option run \<times> 'c \<times> event list \<Rightarrow> error option run \<times> 'c \<times> event list \<Rightarrow> bool"
where
  "run_related (Returned (Some err), c1, w1) (st2, c2, w2) = deliveries_prefix w1 w2"
| "run_related (Returned None, c1, w1) (st2, c2, w2) =
     (st2 = Returned None \<and> c2 = c1 \<and> deliveries w2 = deliveries w1)"
| "run_related (OutOfFuel, c1, w1) (st2, c2, w2) =
     (st2 = OutOfFuel \<and> c2 = c1 \<and> deliveries w2 = deliveries w1)"

text \<open>
  The directory path of an object listing, read back from the bucket and the prefix that
  the backend call was given: for a directory path that begins and ends with a slash it
  is the path itself, for a start path without a slash at its end it is the base path.
\<close>

definition listed_directory :: "string \<Rightarrow> string \<Rightarrow> string" where
  "listed_directory bucket prefix = ''/'' @ bucket @ ''/'' @ fst (path_Split prefix)"

text \<open>
  The leaves of a page listed under a directory path: the directory path followed by
  the name, for every entry whose name does not end in a slash.
\<close>

definition leaf_paths :: "string \<Rightarrow> ObjectResponse list \<Rightarrow> string list" where
  "leaf_paths dirPath objs =
     map (\<lambda>obj. dirPath @ object_name obj)
       (filter (\<lambda>obj. \<not> HasSuffix (object_name obj) ''/'') objs)"

text \<open>
  What the walk may deliver after a backend call, as long as no other backend call
  follows: after a page of objects, a path that begins with a slash is a leaf of that
  page, and a path that does not is the marker of the bucket just listed, the bucket
  name followed by one slash, the prefix of the listing being empty. Nothing is
  delivered before the first backend call, after a bucket listing, or after a call that
  failed.
\<close>

fun output_after :: "backend \<Rightarrow> event option \<Rightarrow> string \<Rightarrow> bool" where
  "output_after be (Some (ObjectsCall projectRef bucket prefix i r)) path =
     (case objects be projectRef bucket prefix i of
        Inl err \<Rightarrow> False
      | Inr objs \<Rightarrow>
          if HasPrefix path ''/''
          then path \<in> set (leaf_paths (listed_directory bucket prefix) objs)
          else prefix = [] \<and> path = bucket @ ''/'')"
| "output_after be call path = False"

text \<open>
  The deliveries of a log, each checked against the backend call before it; \<open>call\<close> is
  the backend call before the log.
\<close>

fun outputs_ok :: "backend \<Rightarrow> event option \<Rightarrow> event list \<Rightarrow> bool" where
  "outputs_ok be call [] = True"
| "outputs_ok be call (Delivery path r # evs) =
     (output_after be call path \<and> outputs_ok be call evs)"
| "outputs_ok be call (e # evs) = outputs_ok be (Some e) evs"

fun latest_call :: "event option \<Rightarrow> event list \<Rightarrow> event option" where
  "latest_call call [] = call"
| "latest_call call (Delivery path r # evs) = latest_call call evs"
| "latest_call call (e # evs) = latest_call (Some e) evs"

text \<open>
  What holds of every directory path on the queue of a walk whose remote path begins
  with a slash (the path \<open>//\<close> is queued only when the backend lists a bucket).
\<close>

definition queued_ok :: "backend \<Rightarrow> string \<Rightarrow> string \<Rightarrow> bool" where
  "queued_ok be projectRef dirPath =
     (HasPrefix dirPath ''/'' \<and> HasSuffix dirPath ''/'' \<and> 2 \<le> length dirPath
      \<and> (dirPath = ''//'' \<longrightarrow> (\<exists>bs. buckets be projectRef = Inr bs \<and> bs \<noteq> [])))"

text \<open>
  A plain text has no control byte and none of the bytes that \<^verbatim>\<open>url.Parse\<close> reads
  as an escape, as the start of the query or as the start of the fragment.
\<close>

definition plain :: "string \<Rightarrow> bool" where
  "plain s = (\<forall>c\<in>set s. c \<notin> set ''%?#'' \<and> (32 :: nat) \<le> of_char c \<and> of_char c \<noteq> (127 :: nat))"

subsection \<open>Example backends\<close>

text \<open>
  Bucket \<open>a\<close> holds the object \<open>x.txt\<close> and the folder \<open>y\<close>, which holds \<open>z.txt\<close>.
\<close>

definition backend_a :: backend where
  "backend_a =
     \<lparr>buckets = (\<lambda>projectRef. Inr [\<lparr>BucketResponse.Name = ''a''\<rparr>]),
      objects = (\<lambda>projectRef bucket prefix i.
        if bucket = ''a'' \<and> prefix = '''' \<and> i = 0
        then Inr [\<lparr>Name = ''x.txt'', Id = Some ''1''\<rparr>, \<lparr>Name = ''y'', Id = None\<rparr>]
        else if bucket = ''a'' \<and> prefix = ''y/'' \<and> i = 0
        then Inr [\<lparr>Name = ''z.txt'', Id = Some ''2''\<rparr>]
        else Inr []),
      page_limit = 100\<rparr>"

text \<open>
  Bucket \<open>a\<close> holds the folders \<open>p\<close> and \<open>q\<close>; \<open>p\<close> holds \<open>shallow.txt\<close>, \<open>q\<close> holds
  the folder \<open>r\<close>, which holds \<open>deep.txt\<close>.
\<close>

definition backend_nested :: backend where
  "backend_nested =
     \<lparr>buckets = (\<lambda>projectRef. Inr [\<lparr>BucketResponse.Name = ''a''\<rparr>]),
      objects = (\<lambda>projectRef bucket prefix i.
        if bucket = ''a'' \<and> prefix = '''' \<and> i = 0
        then Inr [\<lparr>Name = ''p'', Id = None\<rparr>, \<lparr>Name = ''q'', Id = None\<rparr>]
        else if bucket = ''a'' \<and> prefix = ''p/'' \<and> i = 0
        then Inr [\<lparr>Name = ''shallow.txt'', Id = Some ''1''\<rparr>]
        else if bucket = ''a'' \<and> prefix = ''q/'' \<and> i = 0
        then Inr [\<lparr>Name = ''r'', Id = None\<rparr>]
        else if bucket = ''a'' \<and> prefix = ''q/r/'' \<and> i = 0
        then Inr [\<lparr>Name = ''deep.txt'', Id = Some ''2''\<rparr>]
        else Inr []),
      page_limit = 100\<rparr>"

text \<open>Bucket \<open>b\<close> is empty; it is the only bucket.\<close>

definition backend_b :: backend where
  "backend_b =
     \<lparr>buckets = (\<lambda>projectRef. Inr [\<lparr>BucketResponse.Name = ''b''\<rparr>]),
      objects = (\<lambda>projectRef bucket prefix i. Inr []),
      page_limit = 100\<rparr>"

text \<open>
  Bucket \<open>c\<close> holds the object \<open>x.txt\<close> and the folder \<open>sub\<close>, under which there is
  nothing.
\<close>

definition backend_c :: backend where
  "backend_c =
     \<lparr>buckets = (\<lambda>projectRef. Inr [\<lparr>BucketResponse.Name = ''c''\<rparr>]),
      objects = (\<lambda>projectRef bucket prefix i.
        if bucket = ''c'' \<and> prefix = '''' \<and> i = 0
        then Inr [\<lparr>Name = ''x.txt'', Id = Some ''1''\<rparr>, \<lparr>Name = ''sub'', Id = None\<rparr>]
        else Inr []),
      page_limit = 100\<rparr>"

text \<open>
  A page size of two: bucket \<open>bkt\<close> holds three objects, two on page 0 and one on
  page 1.
\<close>

definition paged_pages :: "nat \<Rightarrow> ObjectResponse list" where
  "paged_pages i =
     (if i = 0 then [\<lparr>Name = ''a'', Id = Some ''1''\<rparr>, \<lparr>Name = ''b'', Id = Some ''2''\<rparr>]
      else if i = 1 then [\<lparr>Name = ''c'', Id = Some ''3''\<rparr>]
      else [])"

definition backend_paged :: backend where
  "backend_paged =
     \<lparr>buckets = (\<lambda>projectRef. Inr [\<lparr>BucketResponse.Name = ''bkt''\<rparr>]),
      objects = (\<lambda>projectRef bucket prefix i.
        if bucket = ''bkt'' \<and> prefix = '''' then Inr (paged_pages i) else Inr []),
      page_limit = 2\<rparr>"

text \<open>Three buckets, for listings by name.\<close>

definition backend_buckets :: backend where
  "backend_buckets =
     \<lparr>buckets = (\<lambda>projectRef.
        Inr [\<lparr>BucketResponse.Name = ''photos''\<rparr>, \<lparr>BucketResponse.Name = ''docs''\<rparr>,
             \<lparr>BucketResponse.Name = ''private''\<rparr>]),
      objects = (\<lambda>projectRef bucket prefix i. Inr []),
      page_limit = 100\<rparr>"

text \<open>The backend of bucket \<open>a\<close> when the listing of the folder \<open>y\<close> fails.\<close>

definition backend_a_failing :: backend where
  "backend_a_failing =
     \<lparr>buckets = (\<lambda>projectRef. Inr [\<lparr>BucketResponse.Name = ''a''\<rparr>]),
      objects = (\<lambda>projectRef bucket prefix i.
        if bucket = ''a'' \<and> prefix = '''' \<and> i = 0
        then Inr [\<lparr>Name = ''x.txt'', Id = Some ''1''\<rparr>, \<lparr>Name = ''y'', Id = None\<rparr>]
        else Inl (Error ''unavailable'')),
      page_limit = 100\<rparr>"

text \<open>
  Two buckets: the empty bucket \<open>b\<close>, and bucket \<open>a\<close> with the objects \<open>x.txt\<close> and
  \<open>yard.txt\<close> and the folder \<open>y\<close>, which holds \<open>z.txt\<close>. A listing under the prefix
  \<open>y\<close> answers the names that begin with \<open>y\<close>.
\<close>

definition backend_two :: backend where
  "backend_two =
     \<lparr>buckets = (\<lambda>projectRef.
        Inr [\<lparr>BucketResponse.Name = ''a''\<rparr>, \<lparr>BucketResponse.Name = ''b''\<rparr>]),
      objects = (\<lambda>projectRef bucket prefix i.
        if bucket = ''a'' \<and> prefix = '''' \<and> i = 0
        then Inr [\<lparr>Name = ''x.txt'', Id = Some ''1''\<rparr>, \<lparr>Name = ''y'', Id = None\<rparr>,
                  \<lparr>Name = ''yard.txt'', Id = Some ''3''\<rparr>]
        else if bucket = ''a'' \<and> prefix = ''y'' \<and> i = 0
        then Inr [\<lparr>Name = ''y'', Id = None\<rparr>, \<lparr>Name = ''yard.txt'', Id = Some ''3''\<rparr>]
        else if bucket = ''a'' \<and> prefix = ''y/'' \<and> i = 0
        then Inr [\<lparr>Name = ''z.txt'', Id = Some ''2''\<rparr>]
        else Inr []),
      page_limit = 100\<rparr>"
section \<open>Properties\<close>

subsection \<open>Strings\<close>

lemma HasSuffix_slash: "HasSuffix s ''/'' \<longleftrightarrow> s \<noteq> [] \<and> last s = CHR ''/''"
  by (cases s rule: rev_cases) (auto simp: HasSuffix_def)

lemma HasSuffix_append_slash [simp]: "HasSuffix (s @ ''/'') ''/''"
  by (simp add: HasSuffix_slash)

lemma HasPrefix_Nil [simp]: "HasPrefix s []"
  by (simp add: HasPrefix_def)

lemma length_takeWhile_less: "c \<in> set s \<Longrightarrow> length (takeWhile (\<lambda>x. x \<noteq> c) s) < length s"
  by (induction s) auto

lemma IndexByte_neg_iff: "IndexByte s c < 0 \<longleftrightarrow> c \<notin> set s"
  by (simp add: IndexByte_def)

lemma IndexByte_mem:
  "c \<in> set s \<Longrightarrow> IndexByte s c = int (length (takeWhile (\<lambda>x. x \<noteq> c) s))"
  by (simp add: IndexByte_def)

subsection \<open>The splitter\<close>

lemma drop_start:
  "p \<noteq> [] \<Longrightarrow> drop (if p ! 0 = CHR ''/'' then 1 else 0) p = (if hd p = CHR ''/'' then tl p else p)"
  by (cases p) auto

lemma SplitBucketPrefix_no_slash:
  assumes "p \<noteq> ''''" "p \<noteq> ''/''"
    and "r = (if hd p = CHR ''/'' then tl p else p)" and "CHR ''/'' \<notin> set r"
  shows "SplitBucketPrefix p = (r, '''')"
proof -
  have "p \<noteq> []" using assms(1) by simp
  from drop_start [OF this] have "drop (if p ! 0 = CHR ''/'' then 1 else 0) p = r"
    using assms(3) by simp
  moreover have "IndexByte r (CHR ''/'') < 0" using assms(4) by (simp add: IndexByte_neg_iff)
  ultimately show ?thesis using assms(1,2) by (simp add: SplitBucketPrefix_def Let_def)
qed

lemma SplitBucketPrefix_slash:
  assumes "p \<noteq> ''''" "p \<noteq> ''/''"
    and "r = (if hd p = CHR ''/'' then tl p else p)" and "CHR ''/'' \<in> set r"
  shows "SplitBucketPrefix p =
    (takeWhile (\<lambda>c. c \<noteq> CHR ''/'') r, tl (dropWhile (\<lambda>c. c \<noteq> CHR ''/'') r))"
proof -
  define n :: nat where "n = (if p ! 0 = CHR ''/'' then 1 else 0)"
  define k where "k = length (takeWhile (\<lambda>c. c \<noteq> CHR ''/'') r)"
  have "p \<noteq> []" using assms(1) by simp
  from drop_start [OF this] have r: "drop n p = r" using assms(3) by (simp add: n_def)
  have idx: "IndexByte r (CHR ''/'') = int k" using assms(4) by (simp add: IndexByte_mem k_def)
  have bucket: "slice p n (k + n) = takeWhile (\<lambda>c. c \<noteq> CHR ''/'') r"
    using takeWhile_eq_take [of "\<lambda>c. c \<noteq> CHR ''/''" r] by (simp add: slice_def r k_def)
  have "drop (Suc (k + n)) p = drop (Suc k) (drop n p)" by (simp add: add.commute)
  also have "\<dots> = tl (drop k r)" by (simp add: r drop_Suc drop_tl)
  also have "\<dots> = tl (dropWhile (\<lambda>c. c \<noteq> CHR ''/'') r)"
    using dropWhile_eq_drop [of "\<lambda>c. c \<noteq> CHR ''/''" r] by (simp add: k_def)
  finally have rest: "drop (Suc (k + n)) p = tl (dropWhile (\<lambda>c. c \<noteq> CHR ''/'') r)" .
  have "SplitBucketPrefix p =
      (slice p n (nat (int k + int n)), drop (nat (int k + int n + 1)) p)"
    using assms(1,2) by (simp add: SplitBucketPrefix_def Let_def n_def [symmetric] r idx)
  also have "nat (int k + int n) = k + n" by simp
  also have "nat (int k + int n + 1) = Suc (k + n)" by simp
  finally show ?thesis by (simp only: bucket rest)
qed

text \<open>
  The index and slice expressions of the source stay in range, so the Go function never
  panics: \<open>start\<close> is a position of the path, and when a separator is found both slice
  bounds are.
\<close>

lemma SplitBucketPrefix_in_range:
  assumes "p \<noteq> ''''"
    and "start = (if p ! 0 = CHR ''/'' then 1 else 0 :: nat)"
    and "sep = IndexByte (drop start p) (CHR ''/'')"
  shows "start \<le> length p"
    and "0 \<le> sep \<Longrightarrow> start \<le> nat (sep + int start) \<and> nat (sep + int start + 1) \<le> length p"
proof -
  show "start \<le> length p" using assms(1,2) by (cases p) auto
  assume "0 \<le> sep"
  then have mem: "CHR ''/'' \<in> set (drop start p)"
    using IndexByte_neg_iff [of "drop start p" "CHR ''/''"] assms(3) by auto
  define k where "k = length (takeWhile (\<lambda>x. x \<noteq> CHR ''/'') (drop start p))"
  have "k < length p - start" using length_takeWhile_less [OF mem] by (simp add: k_def)
  moreover have "sep = int k" using assms(3) by (simp add: IndexByte_mem [OF mem] k_def)
  ultimately show "start \<le> nat (sep + int start) \<and> nat (sep + int start + 1) \<le> length p"
    by auto
qed

text \<open>
  C7. \<^const>\<open>SplitBucketPrefix\<close> is a total function that computes the split the
  specification describes: the empty path and \<open>/\<close> map to two empty components;
  otherwise one leading slash is stripped, the bucket is the text before the first
  remaining slash, the prefix is everything after that slash, and without a remaining
  slash the whole remainder is the bucket and the prefix is empty.
\<close>

theorem SplitBucketPrefix_refines_spec: "SplitBucketPrefix p = split_spec p"
proof (cases "p = '''' \<or> p = ''/''")
  case True
  then show ?thesis by (auto simp: SplitBucketPrefix_def split_spec_def)
next
  case False
  define r where "r = (if hd p = CHR ''/'' then tl p else p)"
  show ?thesis
  proof (cases "CHR ''/'' \<in> set r")
    case True
    with False SplitBucketPrefix_slash [of p r] show ?thesis
      by (simp add: split_spec_def Let_def r_def [symmetric])
  next
    case no: False
    with False SplitBucketPrefix_no_slash [of p r] show ?thesis
      by (simp add: split_spec_def Let_def r_def [symmetric])
  qed
qed

theorem SplitBucketPrefix_refines_spec_witness:
  "SplitBucketPrefix ''/bucket/dir/file.txt'' = (''bucket'', ''dir/file.txt'')
   \<and> SplitBucketPrefix ''bucket'' = (''bucket'', '''')
   \<and> SplitBucketPrefix ''/'' = ('''', '''')"
  using SplitBucketPrefix_refines_spec [of "''/bucket/dir/file.txt''"]
    SplitBucketPrefix_refines_spec [of "''bucket''"]
    SplitBucketPrefix_refines_spec [of "''/''"]
  by (simp add: split_spec_def)

subsection \<open>The listing loops\<close>

lemma collect_apply: "collect objectName result w = (None, result @ [objectName], w)"
  by (simp add: collect_def)

lemma for_objects_collect:
  "for_objects collect objs result w = (None, result @ map object_name objs, w)"
  by (induction objs arbitrary: result) (simp_all add: collect_apply)

lemma for_buckets_collect:
  "for_buckets bucket collect bs result w =
     (None, result @ map (\<lambda>b. BucketResponse.Name b @ ''/'')
                       (filter (\<lambda>b. HasPrefix (BucketResponse.Name b) bucket) bs), w)"
  by (induction bs arbitrary: result) (simp_all add: collect_apply)

text \<open>One iteration of the page loop, by what the backend answered.\<close>

lemma for_pages_done:
  "\<not> i < pages \<Longrightarrow>
   for_pages (Suc fuel) cl projectRef bucket prefix callback i pages c w = (Returned None, c, w)"
  by simp

lemma for_pages_error:
  "i < pages \<Longrightarrow> ListStorageObjects cl projectRef bucket prefix i w = (Inl err, w1) \<Longrightarrow>
   for_pages (Suc fuel) cl projectRef bucket prefix callback i pages c w = (Returned (Some err), c, w1)"
  by simp

lemma for_pages_page:
  "i < pages \<Longrightarrow> ListStorageObjects cl projectRef bucket prefix i w = (Inr objs, w1) \<Longrightarrow>
   pages' = (if length objs = PAGE_LIMIT cl then Suc pages else pages) \<Longrightarrow>
   for_pages (Suc fuel) cl projectRef bucket prefix callback i pages c w =
     (case for_objects callback objs c w1 of
        (Some err, c2, w2) \<Rightarrow> (Returned (Some err), c2, w2)
      | (None, c2, w2) \<Rightarrow> for_pages fuel cl projectRef bucket prefix callback (Suc i) pages' c2 w2)"
  by (simp split: prod.splits option.splits)

declare for_pages.simps(2) [simp del]

lemma for_pages_collect_acc:
  "for_pages fuel cl projectRef bucket prefix collect i pages result w =
     (case for_pages fuel cl projectRef bucket prefix collect i pages [] w of
        (st, names, w') \<Rightarrow> (st, result @ names, w'))"
proof (induction fuel arbitrary: i pages result w)
  case 0
  show ?case by simp
next
  case (Suc fuel)
  show ?case
  proof (cases "i < pages")
    case False
    then show ?thesis by (simp add: for_pages_done)
  next
    case True
    obtain r w1 where call: "ListStorageObjects cl projectRef bucket prefix i w = (r, w1)"
      by (cases "ListStorageObjects cl projectRef bucket prefix i w")
    show ?thesis
    proof (cases r)
      case (Inl err)
      with True call show ?thesis by (simp add: for_pages_error)
    next
      case (Inr objs)
      define pages' where "pages' = (if length objs = PAGE_LIMIT cl then Suc pages else pages)"
      note step = for_pages_page [OF True call [unfolded Inr] pages'_def]
      have a: "for_pages fuel cl projectRef bucket prefix collect (Suc i) pages' acc w1 =
               (case for_pages fuel cl projectRef bucket prefix collect (Suc i) pages' [] w1 of
                  (st, names, w') \<Rightarrow> (st, acc @ names, w'))" for acc
        by (rule Suc.IH)
      show ?thesis
        by (simp add: step for_objects_collect a [of "result @ map object_name objs"]
            a [of "map object_name objs"] split: prod.splits)
    qed
  qed
qed

text \<open>The two branches of \<^const>\<open>IterateStoragePaths\<close>.\<close>

lemma IterateStoragePaths_buckets:
  assumes "SplitBucketPrefix remotePath = (bucket, prefix)"
    and "bucket = [] \<or> (prefix = [] \<and> \<not> HasSuffix remotePath ''/'')"
  shows "IterateStoragePaths fuel cl projectRef remotePath callback c w =
     (case ListStorageBuckets cl projectRef w of
        (Inl err, w1) \<Rightarrow> (Returned (Some err), c, w1)
      | (Inr bs, w1) \<Rightarrow>
          (case for_buckets bucket callback bs c w1 of (r, c2, w2) \<Rightarrow> (Returned r, c2, w2)))"
  using assms by (auto simp: IterateStoragePaths_def)

lemma IterateStoragePaths_objects:
  assumes "SplitBucketPrefix remotePath = (bucket, prefix)"
    and "bucket \<noteq> []" and "prefix \<noteq> [] \<or> HasSuffix remotePath ''/''"
  shows "IterateStoragePaths fuel cl projectRef remotePath callback c w =
     for_pages fuel cl projectRef bucket prefix callback 0 (Suc 0) c w"
  using assms by (auto simp: IterateStoragePaths_def)


lemma logged_client_simps [simp]:
  "ListStorageBuckets (logged_client be) projectRef log =
     (buckets be projectRef, log @ [BucketsCall projectRef (error_of (buckets be projectRef))])"
  "ListStorageObjects (logged_client be) projectRef bucket prefix i log =
     (objects be projectRef bucket prefix i,
      log @ [ObjectsCall projectRef bucket prefix i (error_of (objects be projectRef bucket prefix i))])"
  "PAGE_LIMIT (logged_client be) = page_limit be"
  by (simp_all add: logged_client_def)

lemma for_pages_logged_collect:
  assumes "\<forall>j\<le>k. objects be projectRef bucket prefix (i + j) = Inr (page (i + j))"
    and "\<forall>j<k. length (page (i + j)) = page_limit be"
    and "length (page (i + k)) \<noteq> page_limit be"
    and "k + 1 < fuel"
  shows "for_pages fuel (logged_client be) projectRef bucket prefix collect i (Suc i) result log =
     (Returned None,
      result @ concat (map (\<lambda>j. map object_name (page j)) [i..<Suc (i + k)]),
      log @ map (\<lambda>j. ObjectsCall projectRef bucket prefix j None) [i..<Suc (i + k)])"
  using assms
proof (induction k arbitrary: i fuel result log)
  case 0
  from "0.prems"(4) obtain f where fuel: "fuel = Suc (Suc f)"
    by (metis Suc_lessE add_0 less_Suc_eq_0_disj not_less_eq plus_1_eq_Suc)
  have page: "objects be projectRef bucket prefix i = Inr (page i)" using "0.prems"(1) by simp
  have short: "length (page i) \<noteq> page_limit be" using "0.prems"(3) by simp
  have call: "ListStorageObjects (logged_client be) projectRef bucket prefix i log =
      (Inr (page i), log @ [ObjectsCall projectRef bucket prefix i None])"
    by (simp add: page)
  show ?case
    unfolding fuel
    by (simp add: for_pages_page [OF _ call refl] for_objects_collect short for_pages_done)
next
  case (Suc k)
  from Suc.prems(4) obtain f where fuel: "fuel = Suc f" and f: "k + 1 < f"
    by (cases fuel) auto
  have page: "objects be projectRef bucket prefix i = Inr (page i)"
    using Suc.prems(1) [rule_format, of 0] by simp
  have full: "length (page i) = page_limit be"
    using Suc.prems(2) [rule_format, of 0] by simp
  have call: "ListStorageObjects (logged_client be) projectRef bucket prefix i log =
      (Inr (page i), log @ [ObjectsCall projectRef bucket prefix i None])"
    by (simp add: page)
  have 1: "\<forall>j\<le>k. objects be projectRef bucket prefix (Suc i + j) = Inr (page (Suc i + j))"
    using Suc.prems(1) by (metis Suc_le_mono add_Suc_shift)
  have 2: "\<forall>j<k. length (page (Suc i + j)) = page_limit be"
    using Suc.prems(2) by (metis Suc_less_eq add_Suc_shift)
  have 3: "length (page (Suc i + k)) \<noteq> page_limit be"
    using Suc.prems(3) by simp
  note IH = Suc.IH [OF 1 2 3 f]
  have upt: "[i..<Suc (i + Suc k)] = i # [Suc i..<Suc (Suc i + k)]"
    by (simp add: upt_conv_Cons)
  show ?case
    unfolding fuel upt
    by (simp add: for_pages_page [OF _ call refl] for_objects_collect full IH)
qed

text \<open>
  C5. In the object-listing branch the pages are fetched in sequence from page 0, the
  next page exactly when the page before held \<open>PAGE_LIMIT\<close> entries: when pages
  \<open>0..k-1\<close> are full and page \<open>k\<close> is not, the backend calls are the object listings of
  pages \<open>0..k\<close> in this order and nothing else, and the entries of these pages are
  delivered concatenated in page order.
\<close>

theorem pagination:
  assumes "SplitBucketPrefix remotePath = (bucket, prefix)"
    and "bucket \<noteq> []" and "prefix \<noteq> [] \<or> HasSuffix remotePath ''/''"
    and "\<forall>j\<le>k. objects be projectRef bucket prefix j = Inr (page j)"
    and "\<forall>j<k. length (page j) = page_limit be"
    and "length (page k) \<noteq> page_limit be"
    and "k + 1 < fuel"
  shows "ListStoragePaths fuel (logged_client be) projectRef remotePath log =
     (concat (map (\<lambda>j. map object_name (page j)) [0..<Suc k]), Returned None,
      log @ map (\<lambda>j. ObjectsCall projectRef bucket prefix j None) [0..<Suc k])"
proof -
  have "for_pages fuel (logged_client be) projectRef bucket prefix collect 0 (Suc 0) [] log =
     (Returned None, [] @ concat (map (\<lambda>j. map object_name (page j)) [0..<Suc (0 + k)]),
      log @ map (\<lambda>j. ObjectsCall projectRef bucket prefix j None) [0..<Suc (0 + k)])"
    by (rule for_pages_logged_collect) (use assms in simp_all)
  then show ?thesis
    using assms(1-3) by (auto simp: ListStoragePaths_def IterateStoragePaths_def)
qed


subsection \<open>Invariants of the listing loops\<close>

text \<open>
  A rule for each loop: \<open>I\<close> holds as long as nothing failed, \<open>E err\<close> once something
  failed with \<open>err\<close>, and \<open>N\<close> holds of the names the callback is given.
\<close>

lemma for_buckets_rule:
  assumes "I c w"
    and "\<And>b c w. b \<in> set bs \<Longrightarrow> HasPrefix (BucketResponse.Name b) bucket \<Longrightarrow> I c w \<Longrightarrow>
           after I E (callback (BucketResponse.Name b @ ''/'') c w)"
  shows "after I E (for_buckets bucket callback bs c w)"
  using assms
proof (induction bs arbitrary: c w)
  case Nil
  then show ?case by simp
next
  case (Cons b bs)
  show ?case
  proof (cases "HasPrefix (BucketResponse.Name b) bucket")
    case False
    then show ?thesis using Cons.IH [OF Cons.prems(1)] Cons.prems(2) by simp
  next
    case True
    obtain r c1 w1 where cb: "callback (BucketResponse.Name b @ ''/'') c w = (r, c1, w1)"
      by (cases "callback (BucketResponse.Name b @ ''/'') c w")
    from Cons.prems(2) [of b c w] True Cons.prems(1) cb
    have step: "after I E (r, c1, w1)" by simp
    show ?thesis
    proof (cases r)
      case None
      with step have "I c1 w1" by simp
      from Cons.IH [OF this] Cons.prems(2) show ?thesis using True cb None by simp
    next
      case (Some err)
      with step True cb show ?thesis by simp
    qed
  qed
qed

lemma for_objects_rule:
  assumes "I c w"
    and "\<And>o' c w. o' \<in> set objs \<Longrightarrow> I c w \<Longrightarrow> after I E (callback (object_name o') c w)"
  shows "after I E (for_objects callback objs c w)"
  using assms
proof (induction objs arbitrary: c w)
  case Nil
  then show ?case by simp
next
  case (Cons o' objs)
  obtain r c1 w1 where cb: "callback (object_name o') c w = (r, c1, w1)"
    by (cases "callback (object_name o') c w")
  from Cons.prems(2) [of o' c w] Cons.prems(1) cb
  have step: "after I E (r, c1, w1)" by simp
  show ?case
  proof (cases r)
    case None
    with step have "I c1 w1" by simp
    from Cons.IH [OF this] Cons.prems(2) show ?thesis using cb None by simp
  next
    case (Some err)
    with step cb show ?thesis by simp
  qed
qed

lemma for_pages_rule:
  assumes "I c w"
    and call: "\<And>i c w. I c w \<Longrightarrow>
           after_call (I c) (\<lambda>err. E err c) (\<lambda>objs. \<forall>o'\<in>set objs. N (object_name o'))
             (ListStorageObjects cl projectRef bucket prefix i w)"
    and cb: "\<And>name c w. N name \<Longrightarrow> I c w \<Longrightarrow> after I E (callback name c w)"
  shows "after_run I E (for_pages fuel cl projectRef bucket prefix callback i pages c w)"
  using assms(1)
proof (induction fuel arbitrary: i pages c w)
  case 0
  then show ?case by simp
next
  case (Suc fuel)
  show ?case
  proof (cases "i < pages")
    case False
    with Suc.prems show ?thesis by (simp add: for_pages_done)
  next
    case True
    obtain r w1 where lst: "ListStorageObjects cl projectRef bucket prefix i w = (r, w1)"
      by (cases "ListStorageObjects cl projectRef bucket prefix i w")
    show ?thesis
    proof (cases r)
      case (Inl err)
      with call [OF Suc.prems, of i] lst True show ?thesis by (simp add: for_pages_error)
    next
      case (Inr objs)
      with call [OF Suc.prems, of i] lst
      have I1: "I c w1" and names: "\<forall>o'\<in>set objs. N (object_name o')" by simp_all
      obtain r2 c2 w2 where objs: "for_objects callback objs c w1 = (r2, c2, w2)"
        by (cases "for_objects callback objs c w1")
      have "after I E (for_objects callback objs c w1)"
        by (rule for_objects_rule [where I = I and E = E, OF I1]) (use names cb in blast)
      with objs have step: "after I E (r2, c2, w2)" by simp
      show ?thesis
      proof (cases r2)
        case None
        with step have "I c2 w2" by simp
        from Suc.IH [OF this] show ?thesis
          using None objs by (simp add: for_pages_page [OF True lst [unfolded Inr] refl])
      next
        case (Some err)
        with step objs show ?thesis
          by (simp add: for_pages_page [OF True lst [unfolded Inr] refl])
      qed
    qed
  qed
qed

lemma IterateStoragePaths_rule:
  assumes "I c w"
    and split: "SplitBucketPrefix remotePath = (bucket, prefix)"
    and lb: "\<And>c w. I c w \<Longrightarrow> bucket = [] \<or> (prefix = [] \<and> \<not> HasSuffix remotePath ''/'') \<Longrightarrow>
           after_call (I c) (\<lambda>err. E err c)
             (\<lambda>bs. \<forall>b\<in>set bs. HasPrefix (BucketResponse.Name b) bucket \<longrightarrow>
                      N (BucketResponse.Name b @ ''/''))
             (ListStorageBuckets cl projectRef w)"
    and lo: "\<And>i c w. I c w \<Longrightarrow> bucket \<noteq> [] \<Longrightarrow> prefix \<noteq> [] \<or> HasSuffix remotePath ''/'' \<Longrightarrow>
           after_call (I c) (\<lambda>err. E err c) (\<lambda>objs. \<forall>o'\<in>set objs. N (object_name o'))
             (ListStorageObjects cl projectRef bucket prefix i w)"
    and cb: "\<And>name c w. N name \<Longrightarrow> I c w \<Longrightarrow> after I E (callback name c w)"
  shows "after_run I E (IterateStoragePaths fuel cl projectRef remotePath callback c w)"
proof (cases "bucket = [] \<or> (prefix = [] \<and> \<not> HasSuffix remotePath ''/'')")
  case True
  note branch = IterateStoragePaths_buckets [OF split True]
  obtain r w1 where lst: "ListStorageBuckets cl projectRef w = (r, w1)"
    by (cases "ListStorageBuckets cl projectRef w")
  show ?thesis
  proof (cases r)
    case (Inl err)
    with lb [OF assms(1) True] lst show ?thesis by (simp add: branch)
  next
    case (Inr bs)
    with lb [OF assms(1) True] lst
    have I1: "I c w1"
      and names: "\<forall>b\<in>set bs. HasPrefix (BucketResponse.Name b) bucket \<longrightarrow>
                   N (BucketResponse.Name b @ ''/'')" by simp_all
    have "after I E (for_buckets bucket callback bs c w1)"
      by (rule for_buckets_rule [where I = I and E = E, OF I1]) (use names cb in blast)
    then show ?thesis
      using lst Inr by (cases "for_buckets bucket callback bs c w1") (simp add: branch)
  qed
next
  case False
  then have ob: "bucket \<noteq> []" "prefix \<noteq> [] \<or> HasSuffix remotePath ''/''" by auto
  have "after_run I E (for_pages fuel cl projectRef bucket prefix callback 0 (Suc 0) c w)"
    by (rule for_pages_rule [where I = I and E = E and N = N, OF assms(1)]) (use lo ob cb in blast)+
  then show ?thesis by (simp add: IterateStoragePaths_objects [OF split ob])
qed


subsection \<open>A listing that delivers nothing\<close>

lemma for_buckets_none:
  "filter (\<lambda>b. HasPrefix (BucketResponse.Name b) bucket) bs = [] \<Longrightarrow>
   for_buckets bucket callback bs c w = (None, c, w)"
  by (induction bs) (simp_all split: if_splits)

lemma for_pages_none:
  "for_pages fuel cl projectRef bucket prefix collect i pages [] w = (st, [], w') \<Longrightarrow>
   for_pages fuel cl projectRef bucket prefix callback i pages c w = (st, c, w')"
proof (induction fuel arbitrary: i pages w)
  case 0
  then show ?case by simp
next
  case (Suc fuel)
  show ?case
  proof (cases "i < pages")
    case False
    with Suc.prems show ?thesis by (simp add: for_pages_done)
  next
    case True
    obtain r w1 where call: "ListStorageObjects cl projectRef bucket prefix i w = (r, w1)"
      by (cases "ListStorageObjects cl projectRef bucket prefix i w")
    show ?thesis
    proof (cases r)
      case (Inl err)
      with True call Suc.prems show ?thesis by (simp add: for_pages_error)
    next
      case (Inr objs)
      define pages' where "pages' = (if length objs = PAGE_LIMIT cl then Suc pages else pages)"
      note step = for_pages_page [OF True call [unfolded Inr] pages'_def]
      obtain st2 names w2 where
        rest: "for_pages fuel cl projectRef bucket prefix collect (Suc i) pages' [] w1 = (st2, names, w2)"
        by (cases "for_pages fuel cl projectRef bucket prefix collect (Suc i) pages' [] w1")
      from Suc.prems have "(st2, map object_name objs @ names, w2) = (st, [], w')"
        by (simp add: step for_objects_collect rest
            for_pages_collect_acc [of _ _ _ _ _ _ _ "map object_name objs"])
      then have "objs = []" "names = []" "st2 = st" "w2 = w'" by simp_all
      with rest Suc.IH [of "Suc i" pages' w1]
      have "for_pages fuel cl projectRef bucket prefix callback (Suc i) pages' c w1 = (st, c, w')"
        by simp
      with \<open>objs = []\<close> show ?thesis by (simp add: step)
    qed
  qed
qed

lemma IterateStoragePaths_none:
  assumes "ListStoragePaths fuel cl projectRef remotePath w = ([], st, w')"
  shows "IterateStoragePaths fuel cl projectRef remotePath callback c w = (st, c, w')"
proof -
  obtain bucket prefix where split: "SplitBucketPrefix remotePath = (bucket, prefix)"
    by (cases "SplitBucketPrefix remotePath")
  show ?thesis
  proof (cases "bucket = [] \<or> (prefix = [] \<and> \<not> HasSuffix remotePath ''/'')")
    case True
    note branch = IterateStoragePaths_buckets [OF split True]
    obtain r w1 where call: "ListStorageBuckets cl projectRef w = (r, w1)"
      by (cases "ListStorageBuckets cl projectRef w")
    show ?thesis
    proof (cases r)
      case (Inl err)
      with assms call show ?thesis
        by (simp add: ListStoragePaths_def branch)
    next
      case (Inr bs)
      with assms call
      have "filter (\<lambda>b. HasPrefix (BucketResponse.Name b) bucket) bs = []"
        and "st = Returned None" and "w' = w1"
        by (simp_all add: ListStoragePaths_def branch for_buckets_collect)
      with call Inr show ?thesis
        by (simp add: branch for_buckets_none)
    qed
  next
    case False
    then have ob: "bucket \<noteq> []" "prefix \<noteq> [] \<or> HasSuffix remotePath ''/''" by auto
    note branch = IterateStoragePaths_objects [OF split ob]
    from assms
    have "for_pages fuel cl projectRef bucket prefix collect 0 (Suc 0) [] w = (st, [], w')"
      by (simp add: ListStoragePaths_def branch split: prod.splits)
    from for_pages_none [OF this] show ?thesis
      by (simp add: branch)
  qed
qed

text \<open>One iteration of the queue loop.\<close>

lemma drain_step:
  "drain (Suc fuel) cl projectRef callback (dirQueue @ [dirPath]) c w =
     (case IterateStoragePaths fuel cl projectRef dirPath
             (drain_callback dirPath callback) (dirQueue, True, c) w of
        (OutOfFuel, (dirQueue2, empty', c1), w1) \<Rightarrow> (OutOfFuel, c1, w1)
      | (Returned (Some err), (dirQueue2, empty', c1), w1) \<Rightarrow> (Returned (Some err), c1, w1)
      | (Returned None, (dirQueue2, empty', c1), w1) \<Rightarrow>
          (if empty' \<and> snd (SplitBucketPrefix dirPath) = [] then
             (case callback (fst (SplitBucketPrefix dirPath) @ ''/'') c1 w1 of
                (Some err, c2, w2) \<Rightarrow> (Returned (Some err), c2, w2)
              | (None, c2, w2) \<Rightarrow> drain fuel cl projectRef callback dirQueue2 c2 w2)
           else drain fuel cl projectRef callback dirQueue2 c1 w1))"
  by (simp add: Let_def split_beta split: prod.splits run.splits option.splits)

lemma drain_Nil: "drain (Suc fuel) cl projectRef callback [] c w = (Returned None, c, w)"
  by simp

declare drain.simps(2) [simp del]

text \<open>
  C9. When a directory path taken from the queue has a non-empty prefix component and
  its listing delivers no entry, the iteration of the queue loop invokes no callback:
  it leaves the captured variables as they were, changes the world only by the
  listing's own backend calls, and goes on with the rest of the queue.
\<close>

theorem empty_prefix_not_reported:
  assumes "ListStoragePaths fuel cl projectRef dirPath w = ([], Returned None, w')"
    and "snd (SplitBucketPrefix dirPath) \<noteq> []"
  shows "drain (Suc fuel) cl projectRef callback (dirQueue @ [dirPath]) c w =
         drain fuel cl projectRef callback dirQueue c w'"
  using assms(2) by (simp add: drain_step IterateStoragePaths_none [OF assms(1)])

text \<open>
  The report of an empty bucket in the queue loop. When a directory path taken from the
  queue has an empty prefix component and its listing delivers no entry, the iteration
  gives \<open>bucket + "/"\<close> to the callback, and returns the callback's error or goes on
  with the rest of the queue.
\<close>

theorem empty_bucket_reported:
  assumes "ListStoragePaths fuel cl projectRef dirPath w = ([], Returned None, w')"
    and "SplitBucketPrefix dirPath = (bucket, [])"
  shows "drain (Suc fuel) cl projectRef callback (dirQueue @ [dirPath]) c w =
         (case callback (bucket @ ''/'') c w' of
            (Some err, c2, w2) \<Rightarrow> (Returned (Some err), c2, w2)
          | (None, c2, w2) \<Rightarrow> drain fuel cl projectRef callback dirQueue c2 w2)"
  using assms(2) by (simp add: drain_step IterateStoragePaths_none [OF assms(1)])


subsection \<open>Callbacks that only record\<close>

text \<open>
  A callback that never fails, leaves the world alone and updates its captured
  variables by \<open>g\<close> sees exactly the names that \<^const>\<open>ListStoragePaths\<close> collects.
\<close>

lemma for_objects_pure:
  assumes "\<And>name c w. callback name c w = (None, g name c, w)"
  shows "for_objects callback objs c w =
         (None, foldl (\<lambda>c name. g name c) c (map object_name objs), w)"
  by (induction objs arbitrary: c) (simp_all add: assms)

lemma for_buckets_pure:
  assumes "\<And>name c w. callback name c w = (None, g name c, w)"
  shows "for_buckets bucket callback bs c w =
         (None, foldl (\<lambda>c name. g name c) c
            (map (\<lambda>b. BucketResponse.Name b @ ''/'')
               (filter (\<lambda>b. HasPrefix (BucketResponse.Name b) bucket) bs)), w)"
  by (induction bs arbitrary: c) (simp_all add: assms)

lemma for_pages_pure:
  assumes "\<And>name c w. callback name c w = (None, g name c, w)"
  shows "for_pages fuel cl projectRef bucket prefix callback i pages c w =
     (case for_pages fuel cl projectRef bucket prefix collect i pages [] w of
        (st, names, w') \<Rightarrow> (st, foldl (\<lambda>c name. g name c) c names, w'))"
proof (induction fuel arbitrary: i pages c w)
  case 0
  show ?case by simp
next
  case (Suc fuel)
  show ?case
  proof (cases "i < pages")
    case False
    then show ?thesis by (simp add: for_pages_done)
  next
    case True
    obtain r w1 where call: "ListStorageObjects cl projectRef bucket prefix i w = (r, w1)"
      by (cases "ListStorageObjects cl projectRef bucket prefix i w")
    show ?thesis
    proof (cases r)
      case (Inl err)
      with True call show ?thesis by (simp add: for_pages_error)
    next
      case (Inr objs)
      define pages' where "pages' = (if length objs = PAGE_LIMIT cl then Suc pages else pages)"
      note step = for_pages_page [OF True call [unfolded Inr] pages'_def]
      show ?thesis
        by (simp add: step for_objects_collect for_objects_pure [of callback g, OF assms]
            Suc.IH for_pages_collect_acc [of _ _ _ _ _ _ _ "map object_name objs"]
            split: prod.splits)
    qed
  qed
qed

lemma IterateStoragePaths_pure:
  assumes "\<And>name c w. callback name c w = (None, g name c, w)"
  shows "IterateStoragePaths fuel cl projectRef remotePath callback c w =
     (case ListStoragePaths fuel cl projectRef remotePath w of
        (names, st, w') \<Rightarrow> (st, foldl (\<lambda>c name. g name c) c names, w'))"
proof -
  obtain bucket prefix where split: "SplitBucketPrefix remotePath = (bucket, prefix)"
    by (cases "SplitBucketPrefix remotePath")
  show ?thesis
  proof (cases "bucket = [] \<or> (prefix = [] \<and> \<not> HasSuffix remotePath ''/'')")
    case True
    show ?thesis
      by (simp add: ListStoragePaths_def IterateStoragePaths_buckets [OF split True]
          for_buckets_collect for_buckets_pure [of callback g, OF assms]
          split: prod.splits sum.splits)
  next
    case False
    then have ob: "bucket \<noteq> []" "prefix \<noteq> [] \<or> HasSuffix remotePath ''/''" by auto
    show ?thesis
      by (simp add: ListStoragePaths_def IterateStoragePaths_objects [OF split ob]
          for_pages_pure [of callback g, OF assms] split: prod.splits)
  qed
qed

text \<open>The two callbacks of the walk, around the collecting callback.\<close>

lemma drain_callback_collect:
  "drain_callback dirPath collect name c w = (None, enqueue_or_collect dirPath name c, w)"
  by (cases c) (simp add: drain_callback_def enqueue_or_collect_def collect_apply)

lemma seed_callback_collect:
  "seed_callback basePath collect name (dirQueue, result) w =
     (None, (if HasSuffix name ''/'' then (dirQueue @ [basePath @ name], result)
             else (dirQueue, result @ [basePath @ name])), w)"
  by (simp add: seed_callback_def collect_apply)

lemma foldl_enqueue_or_collect:
  "foldl (\<lambda>c name. enqueue_or_collect dirPath name c) (dirQueue, empty', result) names =
     (dirQueue @ map ((@) dirPath) (filter (\<lambda>name. HasSuffix name ''/'') names),
      empty' \<and> names = [],
      result @ map ((@) dirPath) (filter (\<lambda>name. \<not> HasSuffix name ''/'') names))"
  by (induction names arbitrary: dirQueue empty' result) (simp_all add: enqueue_or_collect_def)

lemma foldl_seed:
  "foldl (\<lambda>c name. (case c of (dirQueue, result) \<Rightarrow>
            if HasSuffix name ''/'' then (dirQueue @ [basePath @ name], result)
            else (dirQueue, result @ [basePath @ name]))) (dirQueue, result) names =
     (dirQueue @ map ((@) basePath) (filter (\<lambda>name. HasSuffix name ''/'') names),
      result @ map ((@) basePath) (filter (\<lambda>name. \<not> HasSuffix name ''/'') names))"
  by (induction names arbitrary: dirQueue result) simp_all

lemma IterateStoragePaths_seed_collect:
  "IterateStoragePaths fuel cl projectRef remotePath (seed_callback basePath collect)
     (dirQueue, result) w =
   (case ListStoragePaths fuel cl projectRef remotePath w of
      (names, st, w') \<Rightarrow>
        (st, (dirQueue @ map ((@) basePath) (filter (\<lambda>name. HasSuffix name ''/'') names),
              result @ map ((@) basePath) (filter (\<lambda>name. \<not> HasSuffix name ''/'') names)), w'))"
proof -
  have pure: "seed_callback basePath collect name c w =
      (None, (case c of (dirQueue, result) \<Rightarrow>
            if HasSuffix name ''/'' then (dirQueue @ [basePath @ name], result)
            else (dirQueue, result @ [basePath @ name])), w)" for name c w
    by (cases c) (simp add: seed_callback_collect)
  show ?thesis
    by (simp add: IterateStoragePaths_pure [of "seed_callback basePath collect", OF pure] foldl_seed)
qed

lemma IterateStoragePaths_drain_collect:
  "IterateStoragePaths fuel cl projectRef dirPath (drain_callback dirPath collect)
     (dirQueue, empty', result) w =
   (case ListStoragePaths fuel cl projectRef dirPath w of
      (names, st, w') \<Rightarrow>
        (st, (dirQueue @ map ((@) dirPath) (filter (\<lambda>name. HasSuffix name ''/'') names),
              empty' \<and> names = [],
              result @ map ((@) dirPath) (filter (\<lambda>name. \<not> HasSuffix name ''/'') names)), w'))"
  by (simp add: IterateStoragePaths_pure [of "drain_callback dirPath collect", OF drain_callback_collect]
      foldl_enqueue_or_collect)

text \<open>What the queue loop delivers is appended to what was delivered before.\<close>

lemma drain_collect_acc:
  "drain fuel cl projectRef collect dirQueue result w =
     (case drain fuel cl projectRef collect dirQueue [] w of
        (st, drained, w') \<Rightarrow> (st, result @ drained, w'))"
proof (induction fuel arbitrary: dirQueue result w)
  case 0
  show ?case by simp
next
  case (Suc fuel)
  show ?case
  proof (cases dirQueue rule: rev_cases)
    case Nil
    then show ?thesis by (simp add: drain_Nil)
  next
    case (snoc q dirPath)
    obtain names st w1 where lst: "ListStoragePaths fuel cl projectRef dirPath w = (names, st, w1)"
      by (cases "ListStoragePaths fuel cl projectRef dirPath w")
    have a: "drain fuel cl projectRef collect q' acc w' =
             (case drain fuel cl projectRef collect q' [] w' of
                (st, drained, w'') \<Rightarrow> (st, acc @ drained, w''))" for q' acc w'
      by (rule Suc.IH)
    note step = drain_step [of fuel cl projectRef collect q dirPath]
    note inner = IterateStoragePaths_drain_collect [of fuel cl projectRef dirPath q True] lst
    show ?thesis
    proof (cases st)
      case OutOfFuel
      then show ?thesis unfolding snoc by (simp add: step inner)
    next
      case (Returned r)
      show ?thesis
      proof (cases r)
        case (Some err)
        with Returned show ?thesis unfolding snoc by (simp add: step inner)
      next
        case None
        show ?thesis
        proof (cases "names = [] \<and> snd (SplitBucketPrefix dirPath) = []")
          case True
          with Returned None show ?thesis
            unfolding snoc
            by (simp add: step inner collect_apply [of "fst (SplitBucketPrefix dirPath) @ ''/''"]
                a [of _ "result @ [fst (SplitBucketPrefix dirPath) @ ''/'']"]
                a [of _ "[fst (SplitBucketPrefix dirPath) @ ''/'']"] split: prod.splits)
        next
          case False
          with Returned None show ?thesis
            unfolding snoc
            by (auto simp add: step inner
                a [of _ "result @ map ((@) dirPath) (filter (\<lambda>name. \<not> HasSuffix name ''/'') names)"]
                a [of _ "map ((@) dirPath) (filter (\<lambda>name. \<not> HasSuffix name ''/'') names)"]
                split: prod.splits)
        qed
      qed
    qed
  qed
qed


subsection \<open>The order of the walk\<close>

text \<open>
  C1, amended. An entry whose name ends in a slash is put on the queue and is not
  delivered. At every path the walk lists with success, the start path as well as each
  directory path taken from the queue, the leaves of that listing are delivered in the
  order of the listing, each as the directory path followed by the name (the base path
  for the start path), after what was delivered before and before everything that the
  walk finds under the directories that are queued then, those of this listing
  included. Only the report of an empty bucket comes between the two.
\<close>

theorem leaves_first:
  assumes "ListStoragePaths fuel cl projectRef path w = (names, Returned None, w1)"
    and "leaves = filter (\<lambda>name. \<not> HasSuffix name ''/'') names"
    and "dirs = filter (\<lambda>name. HasSuffix name ''/'') names"
    and "basePath = (if HasSuffix path ''/'' then path else fst (path_Split path))"
    and "report = (if names = [] \<and> snd (SplitBucketPrefix path) = []
                   then [fst (SplitBucketPrefix path) @ ''/''] else [])"
  shows "ListStoragePathsAll fuel cl projectRef path w =
           (case drain fuel cl projectRef collect (map ((@) basePath) dirs) [] w1 of
              (st, drained, w2) \<Rightarrow> (map ((@) basePath) leaves @ drained, st, w2))
       \<and> drain (Suc fuel) cl projectRef collect (dirQueue @ [path]) result w =
           (case drain fuel cl projectRef collect (dirQueue @ map ((@) path) dirs) [] w1 of
              (st, drained, w2) \<Rightarrow>
                (st, result @ map ((@) path) leaves @ report @ drained, w2))"
proof
  have base: "(if \<not> HasSuffix path ''/'' then fst (path_Split path) else path) = basePath"
    using assms(4) by simp
  show "ListStoragePathsAll fuel cl projectRef path w =
           (case drain fuel cl projectRef collect (map ((@) basePath) dirs) [] w1 of
              (st, drained, w2) \<Rightarrow> (map ((@) basePath) leaves @ drained, st, w2))"
    unfolding assms(2,3)
    by (simp add: ListStoragePathsAll_def IterateStoragePathsAll_def base
        IterateStoragePaths_seed_collect assms(1)
        drain_collect_acc [of _ _ _ _ "map ((@) basePath) (filter (\<lambda>name. \<not> HasSuffix name ''/'') names)"]
        split: prod.splits)
next
  let ?q = "dirQueue @ map ((@) path) dirs"
  let ?leaves = "map ((@) path) leaves"
  obtain st drained w2 where rest:
    "drain fuel cl projectRef collect ?q [] w1 = (st, drained, w2)"
    by (metis prod.exhaust)
  have inner: "IterateStoragePaths fuel cl projectRef path (drain_callback path collect)
      (dirQueue, True, result) w = (Returned None, (?q, names = [], result @ ?leaves), w1)"
    by (simp add: IterateStoragePaths_drain_collect assms(1,2,3))
  have acc: "drain fuel cl projectRef collect ?q acc w1 = (st, acc @ drained, w2)" for acc
    using drain_collect_acc [of fuel cl projectRef ?q acc w1] rest by simp
  show "drain (Suc fuel) cl projectRef collect (dirQueue @ [path]) result w =
           (case drain fuel cl projectRef collect ?q [] w1 of
              (st, drained, w2) \<Rightarrow> (st, result @ ?leaves @ report @ drained, w2))"
    by (simp add: drain_step inner rest acc assms(5)
        collect_apply [of "fst (SplitBucketPrefix path) @ ''/''"])
qed

lemma ListStoragePaths_backend_a:
  "ListStoragePaths 5 (logged_client backend_a) ''ref'' ''/a/'' [] =
     ([''x.txt'', ''y/''], Returned None, [ObjectsCall ''ref'' ''a'' [] 0 None])"
  by code_simp

theorem leaves_first_witness:
  "ListStoragePaths 5 (logged_client backend_a) ''ref'' ''/a/'' [] =
     ([''x.txt'', ''y/''], Returned None, [ObjectsCall ''ref'' ''a'' [] 0 None])
   \<and> ListStoragePathsAll 5 (logged_client backend_a) ''ref'' ''/a/'' [] =
     ([''/a/x.txt''] @ [''/a/y/z.txt''], Returned None,
      [ObjectsCall ''ref'' ''a'' [] 0 None, ObjectsCall ''ref'' ''a'' ''y/'' 0 None])
   \<and> drain 6 (logged_client backend_a) ''ref'' collect ([''/b/''] @ [''/a/'']) [''/c/w.txt''] [] =
     (Returned None, [''/c/w.txt''] @ [''/a/x.txt''] @ [''/a/y/z.txt'', ''b/''],
      [ObjectsCall ''ref'' ''a'' [] 0 None, ObjectsCall ''ref'' ''a'' ''y/'' 0 None,
       ObjectsCall ''ref'' ''b'' [] 0 None])"
proof -
  have 1: "drain 5 (logged_client backend_a) ''ref'' collect [''/a/y/''] []
          [ObjectsCall ''ref'' ''a'' [] 0 None] =
        (Returned None, [''/a/y/z.txt''],
         [ObjectsCall ''ref'' ''a'' [] 0 None, ObjectsCall ''ref'' ''a'' ''y/'' 0 None])"
    by code_simp
  have 2: "drain 5 (logged_client backend_a) ''ref'' collect [''/b/'', ''/a/y/''] []
          [ObjectsCall ''ref'' ''a'' [] 0 None] =
        (Returned None, [''/a/y/z.txt'', ''b/''],
         [ObjectsCall ''ref'' ''a'' [] 0 None, ObjectsCall ''ref'' ''a'' ''y/'' 0 None,
          ObjectsCall ''ref'' ''b'' [] 0 None])"
    by code_simp
  have 3: "(6 :: nat) = Suc 5" by simp
  from leaves_first [OF ListStoragePaths_backend_a refl refl refl refl,
      of "[''/b/'']" "[''/c/w.txt'']"]
  show ?thesis
    unfolding 3 by (simp add: ListStoragePaths_backend_a HasSuffix_def 1 2)
qed

text \<open>
  The claim as stated fails in its own example: the folder \<open>a/y/\<close> is never delivered.
  The walk over \<open>/a/\<close> delivers \<open>/a/x.txt\<close> and \<open>/a/y/z.txt\<close> and nothing else.
\<close>

theorem directory_not_delivered_counterexample:
  "ListStoragePathsAll 3 (logged_client backend_a) ''ref'' ''/a/'' [] =
     ([''/a/x.txt'', ''/a/y/z.txt''], Returned None,
      [ObjectsCall ''ref'' ''a'' [] 0 None, ObjectsCall ''ref'' ''a'' ''y/'' 0 None])"
  by code_simp

text \<open>
  The loop takes the directory path at the end of the queue. With the folders \<open>p\<close> and
  \<open>q\<close> in bucket \<open>a\<close>, the leaf \<open>/a/q/r/deep.txt\<close>, three levels down, is delivered
  before \<open>/a/p/shallow.txt\<close>, two levels down, whereas the comment at the queue says
  that the paths are listed in increasing depth.
\<close>

lemma queue_served_from_its_end:
  "ListStoragePathsAll 5 (logged_client backend_nested) ''ref'' ''/a/'' [] =
     ([''/a/q/r/deep.txt'', ''/a/p/shallow.txt''], Returned None,
      [ObjectsCall ''ref'' ''a'' [] 0 None, ObjectsCall ''ref'' ''a'' ''q/'' 0 None,
       ObjectsCall ''ref'' ''a'' ''q/r/'' 0 None, ObjectsCall ''ref'' ''a'' ''p/'' 0 None])"
  by code_simp


subsection \<open>Empty listings\<close>

theorem empty_prefix_not_reported_witness:
  "ListStoragePaths 2 (logged_client backend_c) ''ref'' ''/c/sub/''
      [ObjectsCall ''ref'' ''c'' [] 0 None] =
     ([], Returned None,
      [ObjectsCall ''ref'' ''c'' [] 0 None, ObjectsCall ''ref'' ''c'' ''sub/'' 0 None])
   \<and> snd (SplitBucketPrefix ''/c/sub/'') = ''sub/''
   \<and> drain 3 (logged_client backend_c) ''ref'' collect [''/c/sub/''] [''/c/x.txt'']
       [ObjectsCall ''ref'' ''c'' [] 0 None] =
     (Returned None, [''/c/x.txt''],
      [ObjectsCall ''ref'' ''c'' [] 0 None, ObjectsCall ''ref'' ''c'' ''sub/'' 0 None])"
proof -
  have 1: "ListStoragePaths 2 (logged_client backend_c) ''ref'' ''/c/sub/''
      [ObjectsCall ''ref'' ''c'' [] 0 None] =
     ([], Returned None,
      [ObjectsCall ''ref'' ''c'' [] 0 None, ObjectsCall ''ref'' ''c'' ''sub/'' 0 None])"
    by code_simp
  have 2: "snd (SplitBucketPrefix ''/c/sub/'') = ''sub/''" by code_simp
  have 3: "snd (SplitBucketPrefix ''/c/sub/'') \<noteq> []" by (simp add: 2)
  have 4: "drain 2 (logged_client backend_c) ''ref'' collect [] [''/c/x.txt'']
       [ObjectsCall ''ref'' ''c'' [] 0 None, ObjectsCall ''ref'' ''c'' ''sub/'' 0 None] =
     (Returned None, [''/c/x.txt''],
      [ObjectsCall ''ref'' ''c'' [] 0 None, ObjectsCall ''ref'' ''c'' ''sub/'' 0 None])"
    by code_simp
  have 5: "(3::nat) = Suc 2" by simp
  from empty_prefix_not_reported [OF 1 3, of collect "[]" "[''/c/x.txt'']"]
  show ?thesis unfolding 5 by (simp add: 1 2 4)
qed

text \<open>
  C2. For a backend whose only bucket \<open>b\<close> is empty, the claim has the walk over \<open>/b/\<close>,
  the path of \<open>ss:///b/\<close>, deliver exactly \<open>b/\<close>. The walk lists the bucket, delivers
  nothing and finds its queue empty: the first listing of the start path has no report
  of an empty bucket. The queue loop has it: the walks over \<open>/b\<close> and over \<open>/\<close> find
  \<open>b/\<close> in the bucket listing, put \<open>/b/\<close> on the queue, list the same bucket and
  deliver \<open>b/\<close>.
\<close>

theorem empty_bucket_at_start_path:
  "ListStoragePathsAll 3 (logged_client backend_b) ''ref'' ''/b/'' [] =
     ([], Returned None, [ObjectsCall ''ref'' ''b'' [] 0 None])
   \<and> ListStoragePathsAll 3 (logged_client backend_b) ''ref'' ''/b'' [] =
     ([''b/''], Returned None, [BucketsCall ''ref'' None, ObjectsCall ''ref'' ''b'' [] 0 None])
   \<and> ListStoragePathsAll 3 (logged_client backend_b) ''ref'' ''/'' [] =
     ([''b/''], Returned None, [BucketsCall ''ref'' None, ObjectsCall ''ref'' ''b'' [] 0 None])"
  by code_simp

text \<open>The report of an empty bucket, for the path \<open>/b/\<close> taken from the queue.\<close>

theorem empty_bucket_reported_witness:
  "ListStoragePaths 2 (logged_client backend_b) ''ref'' ''/b/'' [BucketsCall ''ref'' None] =
     ([], Returned None, [BucketsCall ''ref'' None, ObjectsCall ''ref'' ''b'' [] 0 None])
   \<and> SplitBucketPrefix ''/b/'' = (''b'', [])
   \<and> drain 3 (logged_client backend_b) ''ref'' collect [''/b/''] [] [BucketsCall ''ref'' None] =
     (Returned None, [''b/''], [BucketsCall ''ref'' None, ObjectsCall ''ref'' ''b'' [] 0 None])"
proof -
  have 1: "ListStoragePaths 2 (logged_client backend_b) ''ref'' ''/b/'' [BucketsCall ''ref'' None] =
     ([], Returned None, [BucketsCall ''ref'' None, ObjectsCall ''ref'' ''b'' [] 0 None])"
    by code_simp
  have 2: "SplitBucketPrefix ''/b/'' = (''b'', [])" by code_simp
  have 4: "drain 2 (logged_client backend_b) ''ref'' collect [] [''b/'']
       [BucketsCall ''ref'' None, ObjectsCall ''ref'' ''b'' [] 0 None] =
     (Returned None, [''b/''], [BucketsCall ''ref'' None, ObjectsCall ''ref'' ''b'' [] 0 None])"
    by code_simp
  have 5: "(3::nat) = Suc 2" by simp
  from empty_bucket_reported [OF 1 2, of collect "[]" "[]"]
  show ?thesis unfolding 5 by (simp add: 1 2 4 collect_apply [of "''b/''"])
qed

subsection \<open>Pagination, at a page size of two\<close>

theorem pagination_witness:
  "ListStoragePaths 3 (logged_client backend_paged) ''ref'' ''/bkt/'' [] =
     ([''a'', ''b'', ''c''], Returned None,
      [ObjectsCall ''ref'' ''bkt'' [] 0 None, ObjectsCall ''ref'' ''bkt'' [] 1 None])"
proof -
  have 1: "SplitBucketPrefix ''/bkt/'' = (''bkt'', [])" by code_simp
  have 2: "HasSuffix ''/bkt/'' ''/''" by code_simp
  have 3: "\<forall>j\<le>1. objects backend_paged ''ref'' ''bkt'' [] j = Inr (paged_pages j)"
    by (simp add: backend_paged_def)
  have 4: "\<forall>j<1. length (paged_pages j) = page_limit backend_paged"
    by (simp add: backend_paged_def paged_pages_def)
  have 5: "length (paged_pages 1) \<noteq> page_limit backend_paged"
    by (simp add: backend_paged_def paged_pages_def)
  from pagination [OF 1 _ _ 3 4 5, of 3 "[]"] 2
  show ?thesis
    by (simp add: paged_pages_def object_name_def upt_rec)
qed


subsection \<open>Invariants of the world\<close>

text \<open>
  When a property of the world alone is kept by every backend call and every call of
  the caller's callback, the single-level listing and the whole walk keep it.
\<close>

lemma after_call_weaken:
  assumes "after_call I E A x" and "\<And>y. A y \<Longrightarrow> B y"
  shows "after_call I E B x"
proof (cases x)
  case (Pair r w)
  with assms show ?thesis by (cases r) auto
qed

lemma seed_callback_rule:
  assumes "I w" and "\<And>name c w. I w \<Longrightarrow> after (\<lambda>_. I) (\<lambda>err _. E err) (callback name c w)"
  shows "after (\<lambda>_. I) (\<lambda>err _. E err) (seed_callback basePath callback name qc w)"
proof (cases qc)
  case (Pair dirQueue c)
  show ?thesis
  proof (cases "HasSuffix name ''/''")
    case True
    with Pair assms(1) show ?thesis by (simp add: seed_callback_def)
  next
    case False
    obtain r c' w' where cb: "callback (basePath @ name) c w = (r, c', w')"
      by (metis prod.exhaust)
    from assms(2) [OF assms(1), of "basePath @ name" c] False Pair cb show ?thesis
      by (cases r) (simp_all add: seed_callback_def)
  qed
qed

lemma drain_callback_rule:
  assumes "I w" and "\<And>name c w. I w \<Longrightarrow> after (\<lambda>_. I) (\<lambda>err _. E err) (callback name c w)"
  shows "after (\<lambda>_. I) (\<lambda>err _. E err) (drain_callback dirPath callback name qec w)"
proof (cases qec)
  case (fields dirQueue empty' c)
  show ?thesis
  proof (cases "HasSuffix name ''/''")
    case True
    with fields assms(1) show ?thesis by (simp add: drain_callback_def)
  next
    case False
    obtain r c' w' where cb: "callback (dirPath @ name) c w = (r, c', w')"
      by (metis prod.exhaust)
    from assms(2) [OF assms(1), of "dirPath @ name" c] False fields cb show ?thesis
      by (cases r) (simp_all add: drain_callback_def)
  qed
qed

lemma IterateStoragePaths_world_rule:
  assumes "I w"
    and lb: "\<And>w. I w \<Longrightarrow> after_call I E (\<lambda>_. True) (ListStorageBuckets cl projectRef w)"
    and lo: "\<And>bucket prefix i w. I w \<Longrightarrow>
           after_call I E (\<lambda>_. True) (ListStorageObjects cl projectRef bucket prefix i w)"
    and cb: "\<And>name c w. I w \<Longrightarrow> after (\<lambda>_. I) (\<lambda>err _. E err) (callback name c w)"
  shows "after_run (\<lambda>_. I) (\<lambda>err _. E err)
           (IterateStoragePaths fuel cl projectRef remotePath callback c w)"
proof -
  obtain bucket prefix where split: "SplitBucketPrefix remotePath = (bucket, prefix)"
    by (cases "SplitBucketPrefix remotePath")
  show ?thesis
  proof (rule IterateStoragePaths_rule
      [where I = "\<lambda>_. I" and E = "\<lambda>err _. E err" and N = "\<lambda>_. True", OF assms(1) split])
    fix c w assume "I w"
    from lb [OF this]
    show "after_call I E
            (\<lambda>bs. \<forall>b\<in>set bs. HasPrefix (BucketResponse.Name b) bucket \<longrightarrow> True)
            (ListStorageBuckets cl projectRef w)"
      by (rule after_call_weaken) simp
  next
    fix i c w assume "I w"
    from lo [OF this]
    show "after_call I E (\<lambda>objs. \<forall>o'\<in>set objs. True)
            (ListStorageObjects cl projectRef bucket prefix i w)"
      by (rule after_call_weaken) simp
  next
    fix name c w assume "I w"
    then show "after (\<lambda>_. I) (\<lambda>err _. E err) (callback name c w)" by (rule cb)
  qed
qed

lemma drain_world_rule:
  assumes "I w"
    and lb: "\<And>w. I w \<Longrightarrow> after_call I E (\<lambda>_. True) (ListStorageBuckets cl projectRef w)"
    and lo: "\<And>bucket prefix i w. I w \<Longrightarrow>
           after_call I E (\<lambda>_. True) (ListStorageObjects cl projectRef bucket prefix i w)"
    and cb: "\<And>name c w. I w \<Longrightarrow> after (\<lambda>_. I) (\<lambda>err _. E err) (callback name c w)"
  shows "after_run (\<lambda>_. I) (\<lambda>err _. E err) (drain fuel cl projectRef callback dirQueue c w)"
  using assms(1)
proof (induction fuel arbitrary: dirQueue c w)
  case 0
  then show ?case by simp
next
  case (Suc fuel)
  show ?case
  proof (cases dirQueue rule: rev_cases)
    case Nil
    with Suc.prems show ?thesis by (simp add: drain_Nil)
  next
    case (snoc q dirPath)
    obtain st q2 e2 c2 w2 where inner:
      "IterateStoragePaths fuel cl projectRef dirPath (drain_callback dirPath callback)
         (q, True, c) w = (st, (q2, e2, c2), w2)"
      by (metis prod.exhaust)
    have "after_run (\<lambda>_. I) (\<lambda>err _. E err)
           (IterateStoragePaths fuel cl projectRef dirPath (drain_callback dirPath callback)
              (q, True, c) w)"
    proof (rule IterateStoragePaths_world_rule [where I = I and E = E])
      show "I w" by (rule Suc.prems)
    qed (use lb lo in \<open>auto intro: drain_callback_rule cb\<close>)
    with inner have post: "after_run (\<lambda>_. I) (\<lambda>err _. E err) (st, (q2, e2, c2), w2)" by simp
    show ?thesis
    proof (cases st)
      case OutOfFuel
      with post inner show ?thesis unfolding snoc by (simp add: drain_step)
    next
      case (Returned r)
      show ?thesis
      proof (cases r)
        case (Some err)
        with Returned post inner show ?thesis unfolding snoc by (simp add: drain_step)
      next
        case None
        with Returned post have I2: "I w2" by simp
        show ?thesis
        proof (cases "e2 \<and> snd (SplitBucketPrefix dirPath) = []")
          case False
          with Returned None inner Suc.IH [OF I2, of q2 c2] show ?thesis
            unfolding snoc by (auto simp: drain_step)
        next
          case True
          obtain r3 c3 w3 where marker:
            "callback (fst (SplitBucketPrefix dirPath) @ ''/'') c2 w2 = (r3, c3, w3)"
            by (metis prod.exhaust)
          from cb [OF I2, of "fst (SplitBucketPrefix dirPath) @ ''/''" c2] marker
          have post3: "after (\<lambda>_. I) (\<lambda>err _. E err) (r3, c3, w3)" by simp
          show ?thesis
          proof (cases r3)
            case None: None
            with post3 have "I w3" by simp
            from Suc.IH [OF this, of q2 c3] True Returned \<open>r = None\<close> inner marker None
            show ?thesis unfolding snoc by (simp add: drain_step)
          next
            case (Some err)
            with post3 True Returned \<open>r = None\<close> inner marker
            show ?thesis unfolding snoc by (simp add: drain_step)
          qed
        qed
      qed
    qed
  qed
qed

lemma IterateStoragePathsAll_world_rule:
  assumes "I w"
    and lb: "\<And>w. I w \<Longrightarrow> after_call I E (\<lambda>_. True) (ListStorageBuckets cl projectRef w)"
    and lo: "\<And>bucket prefix i w. I w \<Longrightarrow>
           after_call I E (\<lambda>_. True) (ListStorageObjects cl projectRef bucket prefix i w)"
    and cb: "\<And>name c w. I w \<Longrightarrow> after (\<lambda>_. I) (\<lambda>err _. E err) (callback name c w)"
  shows "after_run (\<lambda>_. I) (\<lambda>err _. E err)
           (IterateStoragePathsAll fuel cl projectRef remotePath callback c w)"
proof -
  define basePath where
    "basePath = (if \<not> HasSuffix remotePath ''/'' then fst (path_Split remotePath) else remotePath)"
  obtain st q1 c1 w1 where seed:
    "IterateStoragePaths fuel cl projectRef remotePath (seed_callback basePath callback)
       ([], c) w = (st, (q1, c1), w1)"
    by (metis prod.exhaust)
  have "after_run (\<lambda>_. I) (\<lambda>err _. E err)
         (IterateStoragePaths fuel cl projectRef remotePath (seed_callback basePath callback)
            ([], c) w)"
  proof (rule IterateStoragePaths_world_rule [where I = I and E = E])
    show "I w" by (rule assms(1))
  qed (use lb lo in \<open>auto intro: seed_callback_rule cb\<close>)
  with seed have post: "after_run (\<lambda>_. I) (\<lambda>err _. E err) (st, (q1, c1), w1)" by simp
  have unfold: "IterateStoragePathsAll fuel cl projectRef remotePath callback c w =
     (case st of
        OutOfFuel \<Rightarrow> (OutOfFuel, c1, w1)
      | Returned (Some err) \<Rightarrow> (Returned (Some err), c1, w1)
      | Returned None \<Rightarrow> drain fuel cl projectRef callback q1 c1 w1)"
    by (simp add: IterateStoragePathsAll_def basePath_def [symmetric] seed
        split: run.splits option.splits)
  show ?thesis
  proof (cases st)
    case OutOfFuel
    with post show ?thesis by (simp add: unfold)
  next
    case (Returned r)
    show ?thesis
    proof (cases r)
      case (Some err)
      with Returned post show ?thesis by (simp add: unfold)
    next
      case None
      with Returned post have "I w1" by simp
      from drain_world_rule [where I = I and E = E, OF this lb lo cb] Returned None
      show ?thesis by (simp add: unfold)
    qed
  qed
qed


subsection \<open>The log of a run\<close>

lemma deliveries_append [simp]: "deliveries (xs @ ys) = deliveries xs @ deliveries ys"
  by (induction xs rule: deliveries.induct) simp_all

lemma backend_calls_append [simp]:
  "backend_calls (xs @ ys) = backend_calls xs @ backend_calls ys"
  by (induction xs rule: backend_calls.induct) simp_all

lemma logged_callback_apply:
  "logged_callback policy name c log =
     (policy (deliveries log) name, c, log @ [Delivery name (policy (deliveries log) name)])"
  by (simp add: logged_callback_def Let_def)

lemma stopped_snoc:
  "stopped_at_first_error None evs \<Longrightarrow> stopped_at_first_error (failure e) (evs @ [e])"
  by (cases "failure e") (simp_all add: stopped_at_first_error_def)

lemma stopped_after_call:
  assumes "\<exists>evs. w = log @ evs \<and> stopped_at_first_error None evs"
    and "w' = w @ [e]" and "failure e = error_of r"
  shows "after_call (\<lambda>w. \<exists>evs. w = log @ evs \<and> stopped_at_first_error None evs)
           (\<lambda>err w. \<exists>evs. w = log @ evs \<and> stopped_at_first_error (Some err) evs)
           (\<lambda>_. True) (r, w')"
proof -
  from assms(1) obtain evs where evs: "w = log @ evs" "stopped_at_first_error None evs" by blast
  from stopped_snoc [OF evs(2), of e] assms(3)
  have "stopped_at_first_error (error_of r) (evs @ [e])" by simp
  moreover have "w' = log @ (evs @ [e])" using evs(1) assms(2) by simp
  ultimately show ?thesis by (cases r) auto
qed

lemma stopped_after_callback:
  assumes "\<exists>evs. w = log @ evs \<and> stopped_at_first_error None evs"
  shows "after (\<lambda>_ w. \<exists>evs. w = log @ evs \<and> stopped_at_first_error None evs)
           (\<lambda>err _ w. \<exists>evs. w = log @ evs \<and> stopped_at_first_error (Some err) evs)
           (logged_callback policy name c w)"
proof -
  from assms obtain evs where evs: "w = log @ evs" "stopped_at_first_error None evs" by blast
  define r where "r = policy (deliveries w) name"
  from stopped_snoc [OF evs(2), of "Delivery name r"]
  have "stopped_at_first_error r (evs @ [Delivery name r])" by simp
  moreover have "w @ [Delivery name r] = log @ (evs @ [Delivery name r])" using evs(1) by simp
  ultimately show ?thesis
    unfolding logged_callback_apply r_def [symmetric] by (cases r) auto
qed

lemma stopped_result:
  assumes "after_run (\<lambda>_ w. \<exists>evs. w = log @ evs \<and> stopped_at_first_error None evs)
            (\<lambda>err _ w. \<exists>evs. w = log @ evs \<and> stopped_at_first_error (Some err) evs) R"
  shows "\<exists>evs. snd (snd R) = log @ evs \<and> stopped_at_first_error (error_returned (fst R)) evs"
proof (cases R)
  case (fields st c w)
  show ?thesis
  proof (cases st)
    case OutOfFuel
    with assms fields show ?thesis by simp
  next
    case (Returned r)
    with assms fields show ?thesis by (cases r) simp_all
  qed
qed

text \<open>
  At any amount of fuel the events of a run are appended to the log, and the run stopped
  at the first failure and returned it.
\<close>

lemma listing_stops_at_first_error:
  "\<exists>evs. snd (snd (IterateStoragePaths fuel (logged_client be) projectRef remotePath
                      (logged_callback policy) c log)) = log @ evs
     \<and> stopped_at_first_error
         (error_returned (fst (IterateStoragePaths fuel (logged_client be) projectRef remotePath
                      (logged_callback policy) c log))) evs"
proof (rule stopped_result, rule IterateStoragePaths_world_rule)
  show "\<exists>evs. log = log @ evs \<and> stopped_at_first_error None evs"
    by (simp add: stopped_at_first_error_def)
qed (auto intro!: stopped_after_call stopped_after_callback)

lemma walk_stops_at_first_error:
  "\<exists>evs. snd (snd (IterateStoragePathsAll fuel (logged_client be) projectRef remotePath
                      (logged_callback policy) c log)) = log @ evs
     \<and> stopped_at_first_error
         (error_returned (fst (IterateStoragePathsAll fuel (logged_client be) projectRef remotePath
                      (logged_callback policy) c log))) evs"
proof (rule stopped_result, rule IterateStoragePathsAll_world_rule)
  show "\<exists>evs. log = log @ evs \<and> stopped_at_first_error None evs"
    by (simp add: stopped_at_first_error_def)
qed (auto intro!: stopped_after_call stopped_after_callback)

subsection \<open>Listing buckets by name\<close>

lemma for_buckets_no_backend_calls:
  assumes "\<exists>evs. w = log @ evs \<and> backend_calls evs = calls"
  shows "\<exists>evs. snd (snd (for_buckets bucket (logged_callback policy) bs c w)) = log @ evs
           \<and> backend_calls evs = calls"
proof -
  let ?I = "\<lambda>(_::'a) w. \<exists>evs. w = log @ evs \<and> backend_calls evs = calls"
  have "after ?I (\<lambda>_. ?I) (for_buckets bucket (logged_callback policy) bs c w)"
  proof (rule for_buckets_rule [where I = ?I and E = "\<lambda>_. ?I"])
    show "?I c w" using assms by simp
  next
    fix b c w assume "?I c w"
    then obtain evs where "w = log @ evs" "backend_calls evs = calls" by blast
    then have "?I c (w @ [Delivery (BucketResponse.Name b @ ''/'')
                 (policy (deliveries w) (BucketResponse.Name b @ ''/''))])"
      by (auto intro: exI [of _ "evs @ [Delivery _ _]"])
    then show "after ?I (\<lambda>_. ?I) (logged_callback policy (BucketResponse.Name b @ ''/'') c w)"
      unfolding logged_callback_apply
      by (cases "policy (deliveries w) (BucketResponse.Name b @ ''/'')") simp_all
  qed
  then show ?thesis
    by (cases "for_buckets bucket (logged_callback policy) bs c w" rule: after.cases [of "(?I, (\<lambda>_. ?I), _)"])
       auto
qed


text \<open>
  C6. When the bucket component is empty, or the prefix component is empty and the
  path does not end in a slash, the single-level listing issues exactly one backend
  call, the bucket listing, and no object listing, whatever the consumer does; and when
  that call succeeds and the consumer is the collecting one, the result is, in backend
  order, the buckets whose name starts with the bucket component, each followed by a
  slash.
\<close>

theorem bucket_name_listing:
  assumes "SplitBucketPrefix remotePath = (bucket, prefix)"
    and "bucket = [] \<or> (prefix = [] \<and> \<not> HasSuffix remotePath ''/'')"
  shows "(\<exists>evs. snd (snd (IterateStoragePaths fuel (logged_client be) projectRef remotePath
                        (logged_callback policy) c log)) = log @ evs
            \<and> backend_calls evs = [BucketsCall projectRef (error_of (buckets be projectRef))])
       \<and> (\<forall>bs. buckets be projectRef = Inr bs \<longrightarrow>
            ListStoragePaths fuel (logged_client be) projectRef remotePath log =
              (map (\<lambda>b. BucketResponse.Name b @ ''/'')
                 (filter (\<lambda>b. HasPrefix (BucketResponse.Name b) bucket) bs),
               Returned None, log @ [BucketsCall projectRef None]))"
proof
  note branch = IterateStoragePaths_buckets [OF assms]
  let ?call = "BucketsCall projectRef (error_of (buckets be projectRef))"
  show "\<exists>evs. snd (snd (IterateStoragePaths fuel (logged_client be) projectRef remotePath
                        (logged_callback policy) c log)) = log @ evs
            \<and> backend_calls evs = [?call]"
  proof (cases "buckets be projectRef")
    case (Inl err)
    then show ?thesis by (simp add: branch)
  next
    case (Inr bs)
    have "\<exists>evs. log @ [?call] = log @ evs \<and> backend_calls evs = [?call]" by simp
    from for_buckets_no_backend_calls [OF this, of bucket policy bs c]
    show ?thesis
      using Inr by (auto simp: branch split: prod.splits)
  qed
  show "\<forall>bs. buckets be projectRef = Inr bs \<longrightarrow>
            ListStoragePaths fuel (logged_client be) projectRef remotePath log =
              (map (\<lambda>b. BucketResponse.Name b @ ''/'')
                 (filter (\<lambda>b. HasPrefix (BucketResponse.Name b) bucket) bs),
               Returned None, log @ [BucketsCall projectRef None])"
    by (simp add: ListStoragePaths_def branch for_buckets_collect)
qed

theorem bucket_name_listing_witness:
  "SplitBucketPrefix ''/p'' = (''p'', [])
   \<and> \<not> HasSuffix ''/p'' ''/''
   \<and> backend_calls (snd (snd (IterateStoragePaths 0 (logged_client backend_buckets) ''ref'' ''/p''
        (logged_callback (\<lambda>delivered name. if delivered = [] then None else Some (Error ''full''))) () [])))
      = [BucketsCall ''ref'' None]
   \<and> ListStoragePaths 0 (logged_client backend_buckets) ''ref'' ''/p'' [] =
       ([''photos/'', ''private/''], Returned None, [BucketsCall ''ref'' None])"
proof -
  have 1: "SplitBucketPrefix ''/p'' = (''p'', [])" by code_simp
  have 2: "\<not> HasSuffix ''/p'' ''/''" by code_simp
  have 3: "''p'' = [] \<or> ([] = [] \<and> \<not> HasSuffix ''/p'' ''/'')" using 2 by simp
  have 4: "buckets backend_buckets ''ref'' =
      Inr [\<lparr>BucketResponse.Name = ''photos''\<rparr>, \<lparr>BucketResponse.Name = ''docs''\<rparr>,
           \<lparr>BucketResponse.Name = ''private''\<rparr>]"
    by (simp add: backend_buckets_def)
  from bucket_name_listing [OF 1 3, of 0 backend_buckets "''ref''"
      "\<lambda>delivered name. if delivered = [] then None else Some (Error ''full'')" "()" "[]"]
  show ?thesis
    by (auto simp: 1 2 4 HasPrefix_def)
qed


subsection \<open>A failing run beside a run without failures\<close>

lemma deliveries_prefix_refl [simp]: "deliveries_prefix w w"
  by (simp add: deliveries_prefix_def)

lemma deliveries_prefix_trans:
  "deliveries_prefix a b \<Longrightarrow> deliveries_prefix b c \<Longrightarrow> deliveries_prefix a c"
  by (auto simp: deliveries_prefix_def)

lemma deliveries_prefix_eq: "deliveries a = deliveries b \<Longrightarrow> deliveries_prefix a b"
  by (simp add: deliveries_prefix_def)

lemma deliveries_prefix_cong:
  "deliveries a = deliveries a' \<Longrightarrow> deliveries_prefix a b \<Longrightarrow> deliveries_prefix a' b"
  by (simp add: deliveries_prefix_def)

lemma deliveries_prefix_snoc [simp]: "deliveries_prefix w (w @ evs)"
  by (simp add: deliveries_prefix_def)

text \<open>A callback that only adds deliveries makes every loop only add deliveries.\<close>

lemma after_prefix:
  "after (\<lambda>_. deliveries_prefix w0) (\<lambda>_ _. deliveries_prefix w0) R \<longleftrightarrow>
   deliveries_prefix w0 (snd (snd R))"
proof (cases R)
  case (fields r c w)
  then show ?thesis by (cases r) simp_all
qed

lemma after_run_prefix:
  "after_run (\<lambda>_. deliveries_prefix w0) (\<lambda>_ _. deliveries_prefix w0) R \<longleftrightarrow>
   deliveries_prefix w0 (snd (snd R))"
proof (cases R)
  case (fields st c w)
  show ?thesis
  proof (cases st)
    case (Returned r)
    with fields show ?thesis by (cases r) simp_all
  qed (simp add: fields)
qed

lemma for_objects_more:
  assumes "\<And>name c w. deliveries_prefix w (snd (snd (callback name c w)))"
  shows "deliveries_prefix w (snd (snd (for_objects callback objs c w)))"
proof -
  have "after (\<lambda>_. deliveries_prefix w) (\<lambda>_ _. deliveries_prefix w) (for_objects callback objs c w)"
  proof (rule for_objects_rule
      [where I = "\<lambda>_. deliveries_prefix w" and E = "\<lambda>_ _. deliveries_prefix w"])
    fix o' c' w' assume "deliveries_prefix w w'"
    with assms [of w' "object_name o'" c']
    show "after (\<lambda>_. deliveries_prefix w) (\<lambda>_ _. deliveries_prefix w)
            (callback (object_name o') c' w')"
      unfolding after_prefix by (blast intro: deliveries_prefix_trans)
  qed simp
  then show ?thesis by (simp only: after_prefix)
qed

lemma for_buckets_more:
  assumes "\<And>name c w. deliveries_prefix w (snd (snd (callback name c w)))"
  shows "deliveries_prefix w (snd (snd (for_buckets bucket callback bs c w)))"
proof -
  have "after (\<lambda>_. deliveries_prefix w) (\<lambda>_ _. deliveries_prefix w)
          (for_buckets bucket callback bs c w)"
  proof (rule for_buckets_rule
      [where I = "\<lambda>_. deliveries_prefix w" and E = "\<lambda>_ _. deliveries_prefix w"])
    fix b c' w' assume "deliveries_prefix w w'"
    with assms [of w' "BucketResponse.Name b @ ''/''" c']
    show "after (\<lambda>_. deliveries_prefix w) (\<lambda>_ _. deliveries_prefix w)
            (callback (BucketResponse.Name b @ ''/'') c' w')"
      unfolding after_prefix by (blast intro: deliveries_prefix_trans)
  qed simp
  then show ?thesis by (simp only: after_prefix)
qed

lemma logged_call_more:
  "deliveries_prefix w0 w \<Longrightarrow>
     after_call (deliveries_prefix w0) (\<lambda>_. deliveries_prefix w0) (\<lambda>_. True)
       (ListStorageBuckets (logged_client be) projectRef w)"
  "deliveries_prefix w0 w \<Longrightarrow>
     after_call (deliveries_prefix w0) (\<lambda>_. deliveries_prefix w0) (\<lambda>_. True)
       (ListStorageObjects (logged_client be) projectRef bucket prefix i w)"
  by (cases "buckets be projectRef"; simp add: deliveries_prefix_def)
     (cases "objects be projectRef bucket prefix i"; simp add: deliveries_prefix_def)

lemma for_pages_more:
  assumes "\<And>name c w. deliveries_prefix w (snd (snd (callback name c w)))"
  shows "deliveries_prefix w
     (snd (snd (for_pages fuel (logged_client be) projectRef bucket prefix callback i pages c w)))"
proof -
  have "after_run (\<lambda>_. deliveries_prefix w) (\<lambda>_ _. deliveries_prefix w)
          (for_pages fuel (logged_client be) projectRef bucket prefix callback i pages c w)"
  proof (rule for_pages_rule
      [where I = "\<lambda>_. deliveries_prefix w" and E = "\<lambda>_ _. deliveries_prefix w"
         and N = "\<lambda>_. True"])
    fix name c' w' assume "deliveries_prefix w w'"
    with assms [of w' name c']
    show "after (\<lambda>_. deliveries_prefix w) (\<lambda>_ _. deliveries_prefix w) (callback name c' w')"
      unfolding after_prefix by (blast intro: deliveries_prefix_trans)
  next
    fix i c' w' assume "deliveries_prefix w w'"
    from logged_call_more(2) [OF this]
    show "after_call (deliveries_prefix w) (\<lambda>err. deliveries_prefix w)
            (\<lambda>objs. \<forall>o'\<in>set objs. True)
            (ListStorageObjects (logged_client be) projectRef bucket prefix i w')"
      by (rule after_call_weaken) simp
  qed simp
  then show ?thesis by (simp only: after_run_prefix)
qed

lemma IterateStoragePaths_more:
  assumes "\<And>name c w. deliveries_prefix w (snd (snd (callback name c w)))"
  shows "deliveries_prefix w
     (snd (snd (IterateStoragePaths fuel (logged_client be) projectRef remotePath callback c w)))"
proof -
  have "after_run (\<lambda>_. deliveries_prefix w) (\<lambda>_ _. deliveries_prefix w)
          (IterateStoragePaths fuel (logged_client be) projectRef remotePath callback c w)"
  proof (rule IterateStoragePaths_world_rule
      [where I = "deliveries_prefix w" and E = "\<lambda>_. deliveries_prefix w"])
    fix name c' w' assume "deliveries_prefix w w'"
    with assms [of w' name c']
    show "after (\<lambda>_. deliveries_prefix w) (\<lambda>_ _. deliveries_prefix w) (callback name c' w')"
      unfolding after_prefix by (blast intro: deliveries_prefix_trans)
  qed (auto intro: logged_call_more simp del: logged_client_simps)
  then show ?thesis by (simp only: after_run_prefix)
qed

lemma drain_more:
  assumes "\<And>name c w. deliveries_prefix w (snd (snd (callback name c w)))"
  shows "deliveries_prefix w
     (snd (snd (drain fuel (logged_client be) projectRef callback dirQueue c w)))"
proof -
  have "after_run (\<lambda>_. deliveries_prefix w) (\<lambda>_ _. deliveries_prefix w)
          (drain fuel (logged_client be) projectRef callback dirQueue c w)"
  proof (rule drain_world_rule
      [where I = "deliveries_prefix w" and E = "\<lambda>_. deliveries_prefix w"])
    fix name c' w' assume "deliveries_prefix w w'"
    with assms [of w' name c']
    show "after (\<lambda>_. deliveries_prefix w) (\<lambda>_ _. deliveries_prefix w) (callback name c' w')"
      unfolding after_prefix by (blast intro: deliveries_prefix_trans)
  qed (auto intro: logged_call_more simp del: logged_client_simps)
  then show ?thesis by (simp only: after_run_prefix)
qed


lemma step_related_failed [simp]:
  "step_related (Some err, c1, w1) X = deliveries_prefix w1 (snd (snd X))"
  by (cases X) simp

lemma run_related_failed [simp]:
  "run_related (Returned (Some err), c1, w1) X = deliveries_prefix w1 (snd (snd X))"
  by (cases X) simp

lemma run_related_prefix:
  "run_related X Y \<Longrightarrow> deliveries_prefix (snd (snd X)) (snd (snd Y))"
proof (cases X)
  case (fields st c w)
  assume rel: "run_related X Y"
  show ?thesis
  proof (cases st)
    case OutOfFuel
    with rel fields show ?thesis by (cases Y) (simp add: deliveries_prefix_def)
  next
    case (Returned r)
    with rel fields show ?thesis by (cases r; cases Y) (simp_all add: deliveries_prefix_def)
  qed
qed

lemma for_objects_related:
  assumes R: "\<And>name c w1 w2. deliveries w1 = deliveries w2 \<Longrightarrow>
                step_related (cb1 name c w1) (cb2 name c w2)"
    and M: "\<And>name c w. deliveries_prefix w (snd (snd (cb2 name c w)))"
    and "deliveries w1 = deliveries w2"
  shows "step_related (for_objects cb1 objs c w1) (for_objects cb2 objs c w2)"
  using assms(3)
proof (induction objs arbitrary: c w1 w2)
  case Nil
  then show ?case by simp
next
  case (Cons o' objs)
  obtain r1 c1 v1 where 1: "cb1 (object_name o') c w1 = (r1, c1, v1)" by (metis prod.exhaust)
  obtain r2 c2 v2 where 2: "cb2 (object_name o') c w2 = (r2, c2, v2)" by (metis prod.exhaust)
  from R [OF Cons.prems, of "object_name o'" c] 1 2
  have rel: "step_related (r1, c1, v1) (r2, c2, v2)" by simp
  show ?case
  proof (cases r1)
    case None
    with rel have "r2 = None" "c2 = c1" "deliveries v1 = deliveries v2" by simp_all
    with Cons.IH [of v1 v2 c1] 1 2 None show ?thesis by simp
  next
    case (Some err)
    with rel have p: "deliveries_prefix v1 v2" by simp
    have "deliveries_prefix v2 (snd (snd (for_objects cb2 (o' # objs) c w2)))"
    proof (cases r2)
      case None
      with 2 for_objects_more [of cb2, OF M, of v2 objs c2] show ?thesis by simp
    next
      case (Some e2)
      with 2 show ?thesis by simp
    qed
    with p have "deliveries_prefix v1 (snd (snd (for_objects cb2 (o' # objs) c w2)))"
      by (rule deliveries_prefix_trans)
    with 1 Some show ?thesis by simp
  qed
qed

lemma for_buckets_related:
  assumes R: "\<And>name c w1 w2. deliveries w1 = deliveries w2 \<Longrightarrow>
                step_related (cb1 name c w1) (cb2 name c w2)"
    and M: "\<And>name c w. deliveries_prefix w (snd (snd (cb2 name c w)))"
    and "deliveries w1 = deliveries w2"
  shows "step_related (for_buckets bucket cb1 bs c w1) (for_buckets bucket cb2 bs c w2)"
  using assms(3)
proof (induction bs arbitrary: c w1 w2)
  case Nil
  then show ?case by simp
next
  case (Cons b bs)
  show ?case
  proof (cases "HasPrefix (BucketResponse.Name b) bucket")
    case False
    with Cons.IH [OF Cons.prems] show ?thesis by simp
  next
    case True
    let ?name = "BucketResponse.Name b @ ''/''"
    obtain r1 c1 v1 where 1: "cb1 ?name c w1 = (r1, c1, v1)" by (metis prod.exhaust)
    obtain r2 c2 v2 where 2: "cb2 ?name c w2 = (r2, c2, v2)" by (metis prod.exhaust)
    from R [OF Cons.prems, of ?name c] 1 2
    have rel: "step_related (r1, c1, v1) (r2, c2, v2)" by simp
    show ?thesis
    proof (cases r1)
      case None
      with rel have "r2 = None" "c2 = c1" "deliveries v1 = deliveries v2" by simp_all
      with Cons.IH [of v1 v2 c1] 1 2 None True show ?thesis by simp
    next
      case (Some err)
      with rel have p: "deliveries_prefix v1 v2" by simp
      have "deliveries_prefix v2 (snd (snd (for_buckets bucket cb2 (b # bs) c w2)))"
      proof (cases r2)
        case None
        with 2 True for_buckets_more [of cb2, OF M, of v2 bucket bs c2] show ?thesis by simp
      next
        case (Some e2)
        with 2 True show ?thesis by simp
      qed
      with p have "deliveries_prefix v1 (snd (snd (for_buckets bucket cb2 (b # bs) c w2)))"
        by (rule deliveries_prefix_trans)
      with 1 Some True show ?thesis by simp
    qed
  qed
qed

lemma for_pages_related:
  assumes R: "\<And>name c w1 w2. deliveries w1 = deliveries w2 \<Longrightarrow>
                step_related (cb1 name c w1) (cb2 name c w2)"
    and M: "\<And>name c w. deliveries_prefix w (snd (snd (cb2 name c w)))"
    and kept: "answers_kept be1 be2"
    and "deliveries w1 = deliveries w2"
  shows "run_related
     (for_pages fuel (logged_client be1) projectRef bucket prefix cb1 i pages c w1)
     (for_pages fuel (logged_client be2) projectRef bucket prefix cb2 i pages c w2)"
  using assms(4)
proof (induction fuel arbitrary: i pages c w1 w2)
  case 0
  then show ?case by simp
next
  case (Suc fuel)
  let ?run2 = "for_pages (Suc fuel) (logged_client be2) projectRef bucket prefix cb2 i pages c w2"
  have more2: "deliveries_prefix w2 (snd (snd ?run2))"
    by (rule for_pages_more [OF M])
  show ?case
  proof (cases "i < pages")
    case False
    with Suc.prems show ?thesis by (simp add: for_pages_done)
  next
    case True
    let ?call1 = "ObjectsCall projectRef bucket prefix i (error_of (objects be1 projectRef bucket prefix i))"
    let ?call2 = "ObjectsCall projectRef bucket prefix i (error_of (objects be2 projectRef bucket prefix i))"
    have lst1: "ListStorageObjects (logged_client be1) projectRef bucket prefix i w1 =
        (objects be1 projectRef bucket prefix i, w1 @ [?call1])" by simp
    have lst2: "ListStorageObjects (logged_client be2) projectRef bucket prefix i w2 =
        (objects be2 projectRef bucket prefix i, w2 @ [?call2])" by simp
    show ?thesis
    proof (cases "objects be1 projectRef bucket prefix i")
      case (Inl err)
      have "deliveries_prefix (w1 @ [?call1]) w2"
        using Suc.prems by (simp add: deliveries_prefix_def)
      from deliveries_prefix_trans [OF this more2] True Inl show ?thesis
        by (simp add: for_pages_error [OF True lst1 [unfolded Inl]])
    next
      case (Inr objs)
      with kept have Inr2: "objects be2 projectRef bucket prefix i = Inr objs"
        and limit: "page_limit be2 = page_limit be1"
        by (simp_all add: answers_kept_def)
      define pages' where
        "pages' = (if length objs = page_limit be1 then Suc pages else pages)"
      have p1: "pages' = (if length objs = PAGE_LIMIT (logged_client be1) then Suc pages else pages)"
        by (simp add: pages'_def)
      have p2: "pages' = (if length objs = PAGE_LIMIT (logged_client be2) then Suc pages else pages)"
        by (simp add: pages'_def limit)
      note step1 = for_pages_page [OF True lst1 [unfolded Inr] p1]
      note step2 = for_pages_page [OF True lst2 [unfolded Inr2] p2]
      obtain r1 c1 v1 where 1: "for_objects cb1 objs c (w1 @ [?call1]) = (r1, c1, v1)"
        by (metis prod.exhaust)
      obtain r2 c2 v2 where 2: "for_objects cb2 objs c (w2 @ [?call2]) = (r2, c2, v2)"
        by (metis prod.exhaust)
      have "deliveries (w1 @ [?call1]) = deliveries (w2 @ [?call2])"
        using Suc.prems by simp
      from for_objects_related [of cb1 cb2, OF R M this, of objs c] 1 2
      have rel: "step_related (r1, c1, v1) (r2, c2, v2)" by (simp add: Inr Inr2)
      show ?thesis
      proof (cases r1)
        case None
        with rel have "r2 = None" "c2 = c1" "deliveries v1 = deliveries v2" by simp_all
        with Suc.IH [of v1 v2 "Suc i" pages' c1] 1 2 None show ?thesis
          by (simp add: step1 step2 Inr Inr2)
      next
        case (Some err)
        with rel have p: "deliveries_prefix v1 v2" by simp
        have "deliveries_prefix v2 (snd (snd ?run2))"
        proof (cases r2)
          case None
          with 2 for_pages_more [of cb2, OF M, of v2 fuel be2 projectRef bucket prefix "Suc i" pages' c2]
          show ?thesis by (simp add: step2 Inr2)
        next
          case (Some e2)
          with 2 show ?thesis by (simp add: step2 Inr2)
        qed
        with p have "deliveries_prefix v1 (snd (snd ?run2))" by (rule deliveries_prefix_trans)
        with 1 Some show ?thesis by (simp add: step1 Inr)
      qed
    qed
  qed
qed

lemma IterateStoragePaths_related:
  assumes R: "\<And>name c w1 w2. deliveries w1 = deliveries w2 \<Longrightarrow>
                step_related (cb1 name c w1) (cb2 name c w2)"
    and M: "\<And>name c w. deliveries_prefix w (snd (snd (cb2 name c w)))"
    and kept: "answers_kept be1 be2"
    and eq: "deliveries w1 = deliveries w2"
  shows "run_related
     (IterateStoragePaths fuel (logged_client be1) projectRef remotePath cb1 c w1)
     (IterateStoragePaths fuel (logged_client be2) projectRef remotePath cb2 c w2)"
proof -
  obtain bucket prefix where split: "SplitBucketPrefix remotePath = (bucket, prefix)"
    by (cases "SplitBucketPrefix remotePath")
  let ?run2 = "IterateStoragePaths fuel (logged_client be2) projectRef remotePath cb2 c w2"
  have more2: "deliveries_prefix w2 (snd (snd ?run2))"
    by (rule IterateStoragePaths_more [OF M])
  show ?thesis
  proof (cases "bucket = [] \<or> (prefix = [] \<and> \<not> HasSuffix remotePath ''/'')")
    case True
    note branch = IterateStoragePaths_buckets [OF split True]
    let ?call1 = "BucketsCall projectRef (error_of (buckets be1 projectRef))"
    let ?call2 = "BucketsCall projectRef (error_of (buckets be2 projectRef))"
    show ?thesis
    proof (cases "buckets be1 projectRef")
      case (Inl err)
      have "deliveries_prefix (w1 @ [?call1]) w2"
        using eq by (simp add: deliveries_prefix_def)
      from deliveries_prefix_trans [OF this more2] Inl show ?thesis
        by (simp add: branch [of fuel "logged_client be1"])
    next
      case (Inr bs)
      with kept have Inr2: "buckets be2 projectRef = Inr bs" by (simp add: answers_kept_def)
      obtain r1 c1 v1 where 1: "for_buckets bucket cb1 bs c (w1 @ [?call1]) = (r1, c1, v1)"
        by (metis prod.exhaust)
      obtain r2 c2 v2 where 2: "for_buckets bucket cb2 bs c (w2 @ [?call2]) = (r2, c2, v2)"
        by (metis prod.exhaust)
      have "deliveries (w1 @ [?call1]) = deliveries (w2 @ [?call2])" using eq by simp
      from for_buckets_related [of cb1 cb2, OF R M this, of bucket bs c] 1 2
      have rel: "step_related (r1, c1, v1) (r2, c2, v2)" by (simp add: Inr Inr2)
      show ?thesis
        using rel 1 2 by (cases r1) (simp_all add: branch Inr Inr2)
    qed
  next
    case False
    then have ob: "bucket \<noteq> []" "prefix \<noteq> [] \<or> HasSuffix remotePath ''/''" by auto
    show ?thesis
      unfolding IterateStoragePaths_objects [OF split ob]
      by (rule for_pages_related [OF R M kept eq])
  qed
qed


text \<open>The callbacks of the walk keep the relation of the caller's callbacks.\<close>

lemma seed_callback_more:
  assumes "\<And>name c w. deliveries_prefix w (snd (snd (callback name c w)))"
  shows "deliveries_prefix w (snd (snd (seed_callback basePath callback name qc w)))"
proof (cases qc)
  case (Pair dirQueue c)
  with assms [of w "basePath @ name" c] show ?thesis
    by (auto simp: seed_callback_def Let_def split: prod.splits)
qed

lemma drain_callback_more:
  assumes "\<And>name c w. deliveries_prefix w (snd (snd (callback name c w)))"
  shows "deliveries_prefix w (snd (snd (drain_callback dirPath callback name qec w)))"
proof (cases qec)
  case (fields dirQueue empty' c)
  with assms [of w "dirPath @ name" c] show ?thesis
    by (auto simp: drain_callback_def Let_def split: prod.splits)
qed

lemma seed_callback_related:
  assumes "\<And>name c w1 w2. deliveries w1 = deliveries w2 \<Longrightarrow>
             step_related (cb1 name c w1) (cb2 name c w2)"
    and "deliveries w1 = deliveries w2"
  shows "step_related (seed_callback basePath cb1 name qc w1)
           (seed_callback basePath cb2 name qc w2)"
proof (cases qc)
  case (Pair dirQueue c)
  obtain r1 c1 v1 where 1: "cb1 (basePath @ name) c w1 = (r1, c1, v1)" by (metis prod.exhaust)
  obtain r2 c2 v2 where 2: "cb2 (basePath @ name) c w2 = (r2, c2, v2)" by (metis prod.exhaust)
  from assms(1) [OF assms(2), of "basePath @ name" c] 1 2
  have "step_related (r1, c1, v1) (r2, c2, v2)" by simp
  with Pair 1 2 assms(2) show ?thesis
    by (cases r1) (simp_all add: seed_callback_def Let_def)
qed

lemma drain_callback_related:
  assumes "\<And>name c w1 w2. deliveries w1 = deliveries w2 \<Longrightarrow>
             step_related (cb1 name c w1) (cb2 name c w2)"
    and "deliveries w1 = deliveries w2"
  shows "step_related (drain_callback dirPath cb1 name qec w1)
           (drain_callback dirPath cb2 name qec w2)"
proof (cases qec)
  case (fields dirQueue empty' c)
  obtain r1 c1 v1 where 1: "cb1 (dirPath @ name) c w1 = (r1, c1, v1)" by (metis prod.exhaust)
  obtain r2 c2 v2 where 2: "cb2 (dirPath @ name) c w2 = (r2, c2, v2)" by (metis prod.exhaust)
  from assms(1) [OF assms(2), of "dirPath @ name" c] 1 2
  have "step_related (r1, c1, v1) (r2, c2, v2)" by simp
  with fields 1 2 assms(2) show ?thesis
    by (cases r1) (simp_all add: drain_callback_def Let_def)
qed

text \<open>What the queue loop delivers after the listing of its first iteration.\<close>

lemma drain_more_after_listing:
  assumes M: "\<And>name c w. deliveries_prefix w (snd (snd (callback name c w)))"
    and inner: "IterateStoragePaths fuel (logged_client be) projectRef dirPath
        (drain_callback dirPath callback) (q, True, c) w = (st, (q2, e2, c2), v)"
  shows "deliveries_prefix v
     (snd (snd (drain (Suc fuel) (logged_client be) projectRef callback (q @ [dirPath]) c w)))"
proof (cases st)
  case OutOfFuel
  with inner show ?thesis by (simp add: drain_step)
next
  case (Returned r)
  show ?thesis
  proof (cases r)
    case (Some err)
    with Returned inner show ?thesis by (simp add: drain_step)
  next
    case None
    show ?thesis
    proof (cases "e2 \<and> snd (SplitBucketPrefix dirPath) = []")
      case False
      with Returned None inner drain_more [of callback, OF M, of v fuel be projectRef q2 c2]
      show ?thesis by (auto simp: drain_step)
    next
      case True
      let ?marker = "fst (SplitBucketPrefix dirPath) @ ''/''"
      obtain r3 c3 v3 where 3: "callback ?marker c2 v = (r3, c3, v3)" by (metis prod.exhaust)
      from M [of v ?marker c2] 3 have p: "deliveries_prefix v v3" by simp
      show ?thesis
      proof (cases r3)
        case (Some err)
        with p 3 True Returned None inner show ?thesis by (simp add: drain_step)
      next
        case None: None
        from deliveries_prefix_trans [OF p drain_more [of callback, OF M, of v3 fuel be projectRef q2 c3]]
        show ?thesis using 3 True Returned \<open>r = None\<close> inner None by (simp add: drain_step)
      qed
    qed
  qed
qed

lemma drain_related:
  assumes R: "\<And>name c w1 w2. deliveries w1 = deliveries w2 \<Longrightarrow>
                step_related (cb1 name c w1) (cb2 name c w2)"
    and M: "\<And>name c w. deliveries_prefix w (snd (snd (cb2 name c w)))"
    and kept: "answers_kept be1 be2"
    and "deliveries w1 = deliveries w2"
  shows "run_related
     (drain fuel (logged_client be1) projectRef cb1 dirQueue c w1)
     (drain fuel (logged_client be2) projectRef cb2 dirQueue c w2)"
  using assms(4)
proof (induction fuel arbitrary: dirQueue c w1 w2)
  case 0
  then show ?case by simp
next
  case (Suc fuel)
  show ?case
  proof (cases dirQueue rule: rev_cases)
    case Nil
    with Suc.prems show ?thesis by (simp add: drain_Nil)
  next
    case (snoc q dirPath)
    let ?run2 = "drain (Suc fuel) (logged_client be2) projectRef cb2 (q @ [dirPath]) c w2"
    obtain st1 q1 e1 c1 v1 where 1:
      "IterateStoragePaths fuel (logged_client be1) projectRef dirPath
         (drain_callback dirPath cb1) (q, True, c) w1 = (st1, (q1, e1, c1), v1)"
      by (metis prod.exhaust)
    obtain st2 q2 e2 c2 v2 where 2:
      "IterateStoragePaths fuel (logged_client be2) projectRef dirPath
         (drain_callback dirPath cb2) (q, True, c) w2 = (st2, (q2, e2, c2), v2)"
      by (metis prod.exhaust)
    have "run_related
       (IterateStoragePaths fuel (logged_client be1) projectRef dirPath
          (drain_callback dirPath cb1) (q, True, c) w1)
       (IterateStoragePaths fuel (logged_client be2) projectRef dirPath
          (drain_callback dirPath cb2) (q, True, c) w2)"
      by (rule IterateStoragePaths_related [OF _ _ kept Suc.prems])
        (auto intro: drain_callback_related R drain_callback_more M)
    with 1 2 have rel: "run_related (st1, (q1, e1, c1), v1) (st2, (q2, e2, c2), v2)" by simp
    note after2 = drain_more_after_listing [of cb2, OF M 2]
    show ?thesis
    proof (cases st1)
      case OutOfFuel
      with rel 1 2 show ?thesis unfolding snoc by (simp add: drain_step)
    next
      case (Returned r1)
      show ?thesis
      proof (cases r1)
        case (Some err)
        with Returned rel have "deliveries_prefix v1 v2" by simp
        from deliveries_prefix_trans [OF this after2] Returned Some 1
        show ?thesis unfolding snoc by (simp add: drain_step)
      next
        case None
        with Returned rel have same: "st2 = Returned None" "q2 = q1" "e2 = e1" "c2 = c1"
          and eq: "deliveries v1 = deliveries v2" by simp_all
        show ?thesis
        proof (cases "e1 \<and> snd (SplitBucketPrefix dirPath) = []")
          case False
          with Suc.IH [OF eq, of q1 c1] Returned None same 1 2 show ?thesis
            unfolding snoc by (auto simp: drain_step)
        next
          case True
          let ?marker = "fst (SplitBucketPrefix dirPath) @ ''/''"
          obtain r3 c3 v3 where 3: "cb1 ?marker c1 v1 = (r3, c3, v3)" by (metis prod.exhaust)
          obtain r4 c4 v4 where 4: "cb2 ?marker c1 v2 = (r4, c4, v4)" by (metis prod.exhaust)
          from R [OF eq, of ?marker c1] 3 4
          have rel3: "step_related (r3, c3, v3) (r4, c4, v4)" by simp
          show ?thesis
          proof (cases r3)
            case None: None
            with rel3 have "r4 = None" "c4 = c3" "deliveries v3 = deliveries v4" by simp_all
            with Suc.IH [of v3 v4 q1 c3] True Returned \<open>r1 = None\<close> same 1 2 3 4 None
            show ?thesis unfolding snoc by (simp add: drain_step)
          next
            case (Some err)
            with rel3 have p: "deliveries_prefix v3 v4" by simp
            have "deliveries_prefix v4 (snd (snd ?run2))"
            proof (cases r4)
              case None: None
              with drain_more [of cb2, OF M, of v4 fuel be2 projectRef q1 c4]
                True same 2 4
              show ?thesis by (simp add: drain_step)
            next
              case (Some e4)
              with True same 2 4 show ?thesis by (simp add: drain_step)
            qed
            with p have "deliveries_prefix v3 (snd (snd ?run2))"
              by (rule deliveries_prefix_trans)
            with True Returned \<open>r1 = None\<close> 1 3 Some show ?thesis
              unfolding snoc by (simp add: drain_step)
          qed
        qed
      qed
    qed
  qed
qed

lemma IterateStoragePathsAll_more:
  assumes M: "\<And>name c w. deliveries_prefix w (snd (snd (callback name c w)))"
  shows "deliveries_prefix w
     (snd (snd (IterateStoragePathsAll fuel (logged_client be) projectRef remotePath callback c w)))"
proof -
  have "after_run (\<lambda>_. deliveries_prefix w) (\<lambda>_ _. deliveries_prefix w)
          (IterateStoragePathsAll fuel (logged_client be) projectRef remotePath callback c w)"
  proof (rule IterateStoragePathsAll_world_rule
      [where I = "deliveries_prefix w" and E = "\<lambda>_. deliveries_prefix w"])
    fix name c' w' assume "deliveries_prefix w w'"
    with assms [of w' name c']
    show "after (\<lambda>_. deliveries_prefix w) (\<lambda>_ _. deliveries_prefix w) (callback name c' w')"
      unfolding after_prefix by (blast intro: deliveries_prefix_trans)
  qed (auto intro: logged_call_more simp del: logged_client_simps)
  then show ?thesis by (simp only: after_run_prefix)
qed

lemma IterateStoragePathsAll_related:
  assumes R: "\<And>name c w1 w2. deliveries w1 = deliveries w2 \<Longrightarrow>
                step_related (cb1 name c w1) (cb2 name c w2)"
    and M: "\<And>name c w. deliveries_prefix w (snd (snd (cb2 name c w)))"
    and kept: "answers_kept be1 be2"
    and eq: "deliveries w1 = deliveries w2"
  shows "run_related
     (IterateStoragePathsAll fuel (logged_client be1) projectRef remotePath cb1 c w1)
     (IterateStoragePathsAll fuel (logged_client be2) projectRef remotePath cb2 c w2)"
proof -
  define basePath where
    "basePath = (if \<not> HasSuffix remotePath ''/'' then fst (path_Split remotePath) else remotePath)"
  let ?run2 = "IterateStoragePathsAll fuel (logged_client be2) projectRef remotePath cb2 c w2"
  obtain st1 q1 c1 v1 where 1:
    "IterateStoragePaths fuel (logged_client be1) projectRef remotePath
       (seed_callback basePath cb1) ([], c) w1 = (st1, (q1, c1), v1)"
    by (metis prod.exhaust)
  obtain st2 q2 c2 v2 where 2:
    "IterateStoragePaths fuel (logged_client be2) projectRef remotePath
       (seed_callback basePath cb2) ([], c) w2 = (st2, (q2, c2), v2)"
    by (metis prod.exhaust)
  have "run_related
     (IterateStoragePaths fuel (logged_client be1) projectRef remotePath
        (seed_callback basePath cb1) ([], c) w1)
     (IterateStoragePaths fuel (logged_client be2) projectRef remotePath
        (seed_callback basePath cb2) ([], c) w2)"
    by (rule IterateStoragePaths_related [OF _ _ kept eq])
      (auto intro: seed_callback_related R seed_callback_more M)
  with 1 2 have rel: "run_related (st1, (q1, c1), v1) (st2, (q2, c2), v2)" by simp
  have unfold1: "IterateStoragePathsAll fuel (logged_client be1) projectRef remotePath cb1 c w1 =
     (case st1 of
        OutOfFuel \<Rightarrow> (OutOfFuel, c1, v1)
      | Returned (Some err) \<Rightarrow> (Returned (Some err), c1, v1)
      | Returned None \<Rightarrow> drain fuel (logged_client be1) projectRef cb1 q1 c1 v1)"
    by (simp add: IterateStoragePathsAll_def basePath_def [symmetric] 1
        split: run.splits option.splits)
  have unfold2: "?run2 =
     (case st2 of
        OutOfFuel \<Rightarrow> (OutOfFuel, c2, v2)
      | Returned (Some err) \<Rightarrow> (Returned (Some err), c2, v2)
      | Returned None \<Rightarrow> drain fuel (logged_client be2) projectRef cb2 q2 c2 v2)"
    by (simp add: IterateStoragePathsAll_def basePath_def [symmetric] 2
        split: run.splits option.splits)
  show ?thesis
  proof (cases st1)
    case OutOfFuel
    with rel show ?thesis by (simp add: unfold1 unfold2)
  next
    case (Returned r1)
    show ?thesis
    proof (cases r1)
      case None
      with Returned rel have "st2 = Returned None" "q2 = q1" "c2 = c1"
        and "deliveries v1 = deliveries v2" by simp_all
      with drain_related [of cb1 cb2, OF R M kept, of v1 v2 fuel projectRef q1 c1] Returned None
      show ?thesis by (simp add: unfold1 unfold2)
    next
      case (Some err)
      with Returned rel have p: "deliveries_prefix v1 v2" by simp
      have "deliveries_prefix v2 (snd (snd ?run2))"
      proof (cases st2)
        case OutOfFuel
        then show ?thesis by (simp add: unfold2)
      next
        case st2: (Returned r2)
        show ?thesis
        proof (cases r2)
          case None
          with st2 drain_more [of cb2, OF M, of v2 fuel be2 projectRef q2 c2]
          show ?thesis by (simp add: unfold2)
        next
          case (Some e2)
          with st2 show ?thesis by (simp add: unfold2)
        qed
      qed
      with p have "deliveries_prefix v1 (snd (snd ?run2))" by (rule deliveries_prefix_trans)
      with Returned Some show ?thesis by (simp add: unfold1)
    qed
  qed
qed

text \<open>The logging consumer beside the one that never fails.\<close>

lemma logged_callback_more:
  "deliveries_prefix w (snd (snd (logged_callback policy name c w)))"
  by (simp add: logged_callback_apply)

lemma logged_callback_related:
  "deliveries w1 = deliveries w2 \<Longrightarrow>
   step_related (logged_callback policy name c w1) (logged_callback (\<lambda>_ _. None) name c w2)"
  by (cases "policy (deliveries w2) name")
    (simp_all add: logged_callback_apply deliveries_prefix_def)


text \<open>
  C8. Whatever the backend answers and whenever the consumer fails, at any amount of
  fuel, for the single-level listing and for the walk: the events of the run are
  appended to the log, so nothing delivered is taken back; no event before the last one
  failed; a run that has not returned an error (it returned nil, or is still running)
  has seen no failure; when the last event failed the run has returned, with that
  event's error. And beside a run in which nothing fails, on a backend that answers the
  same wherever the first one succeeds, the paths delivered by the failing run are the
  first of the paths delivered by the other.
\<close>

theorem errors_abort:
  "(\<exists>evs. snd (snd (IterateStoragePaths fuel (logged_client be) projectRef remotePath
                      (logged_callback policy) c log)) = log @ evs
      \<and> stopped_at_first_error
          (error_returned (fst (IterateStoragePaths fuel (logged_client be) projectRef remotePath
                      (logged_callback policy) c log))) evs)
   \<and> (\<exists>evs. snd (snd (IterateStoragePathsAll fuel (logged_client be) projectRef remotePath
                      (logged_callback policy) c log)) = log @ evs
      \<and> stopped_at_first_error
          (error_returned (fst (IterateStoragePathsAll fuel (logged_client be) projectRef remotePath
                      (logged_callback policy) c log))) evs)
   \<and> (answers_kept be be' \<longrightarrow>
        deliveries_prefix
          (snd (snd (IterateStoragePaths fuel (logged_client be) projectRef remotePath
                      (logged_callback policy) c log)))
          (snd (snd (IterateStoragePaths fuel (logged_client be') projectRef remotePath
                      (logged_callback (\<lambda>_ _. None)) c log)))
        \<and> deliveries_prefix
          (snd (snd (IterateStoragePathsAll fuel (logged_client be) projectRef remotePath
                      (logged_callback policy) c log)))
          (snd (snd (IterateStoragePathsAll fuel (logged_client be') projectRef remotePath
                      (logged_callback (\<lambda>_ _. None)) c log))))"
proof (intro conjI impI)
  assume kept: "answers_kept be be'"
  show "deliveries_prefix
          (snd (snd (IterateStoragePaths fuel (logged_client be) projectRef remotePath
                      (logged_callback policy) c log)))
          (snd (snd (IterateStoragePaths fuel (logged_client be') projectRef remotePath
                      (logged_callback (\<lambda>_ _. None)) c log)))"
    by (rule run_related_prefix, rule IterateStoragePaths_related [OF _ _ kept])
      (auto intro: logged_callback_related logged_callback_more)
  show "deliveries_prefix
          (snd (snd (IterateStoragePathsAll fuel (logged_client be) projectRef remotePath
                      (logged_callback policy) c log)))
          (snd (snd (IterateStoragePathsAll fuel (logged_client be') projectRef remotePath
                      (logged_callback (\<lambda>_ _. None)) c log)))"
    by (rule run_related_prefix, rule IterateStoragePathsAll_related [OF _ _ kept])
      (auto intro: logged_callback_related logged_callback_more)
qed (rule listing_stops_at_first_error walk_stops_at_first_error)+

theorem errors_abort_witness:
  "answers_kept backend_a_failing backend_a
   \<and> IterateStoragePathsAll 3 (logged_client backend_a_failing) ''ref'' ''/a/''
        (logged_callback (\<lambda>_ _. None)) () [] =
       (Returned (Some (Error ''unavailable'')), (),
        [ObjectsCall ''ref'' ''a'' [] 0 None, Delivery ''/a/x.txt'' None,
         ObjectsCall ''ref'' ''a'' ''y/'' 0 (Some (Error ''unavailable''))])
   \<and> stopped_at_first_error (Some (Error ''unavailable''))
        [ObjectsCall ''ref'' ''a'' [] 0 None, Delivery ''/a/x.txt'' None,
         ObjectsCall ''ref'' ''a'' ''y/'' 0 (Some (Error ''unavailable''))]
   \<and> deliveries_prefix
        (snd (snd (IterateStoragePathsAll 3 (logged_client backend_a_failing) ''ref'' ''/a/''
                     (logged_callback (\<lambda>_ _. None)) () [])))
        (snd (snd (IterateStoragePathsAll 3 (logged_client backend_a) ''ref'' ''/a/''
                     (logged_callback (\<lambda>_ _. None)) () [])))"
proof -
  have kept: "answers_kept backend_a_failing backend_a"
    by (auto simp: answers_kept_def backend_a_failing_def backend_a_def split: if_splits)
  have run: "IterateStoragePathsAll 3 (logged_client backend_a_failing) ''ref'' ''/a/''
        (logged_callback (\<lambda>_ _. None)) () [] =
       (Returned (Some (Error ''unavailable'')), (),
        [ObjectsCall ''ref'' ''a'' [] 0 None, Delivery ''/a/x.txt'' None,
         ObjectsCall ''ref'' ''a'' ''y/'' 0 (Some (Error ''unavailable''))])"
    by code_simp
  from errors_abort [of 3 backend_a_failing "''ref''" "''/a/''" "\<lambda>_ _. None" "()" "[]" backend_a]
  show ?thesis using kept by (simp add: run)
qed


subsection \<open>Paths and their components\<close>

lemma HasPrefix_append [simp]: "HasPrefix (p @ s) p"
  by (simp add: HasPrefix_def)

lemma HasPrefix_append_trans: "HasPrefix p b \<Longrightarrow> HasPrefix (p @ s) b"
  by (auto simp: HasPrefix_def)

lemma HasPrefix_slash: "HasPrefix p ''/'' \<longleftrightarrow> (\<exists>r. p = CHR ''/'' # r)"
  by (cases p) (auto simp: HasPrefix_def)

lemma LastIndexByte_mem:
  "c \<in> set s \<Longrightarrow>
   LastIndexByte s c = int (length s) - 1 - int (length (takeWhile (\<lambda>x. x \<noteq> c) (rev s)))"
  by (simp add: LastIndexByte_def)

lemma LastIndexByte_nonneg: "c \<in> set s \<Longrightarrow> 0 \<le> LastIndexByte s c"
  using length_takeWhile_less [of c "rev s"] by (simp add: LastIndexByte_mem)

lemma LastIndexByte_zero:
  assumes "LastIndexByte (c # r) c = 0"
  shows "c \<notin> set r"
proof -
  let ?P = "\<lambda>x. x \<noteq> c"
  let ?s = "c # r"
  have len: "length (takeWhile ?P (rev ?s)) = length r"
    using assms by (simp add: LastIndexByte_mem)
  have "rev ?s = takeWhile ?P (rev ?s) @ dropWhile ?P (rev ?s)" by simp
  then have "rev r @ [c] = takeWhile ?P (rev ?s) @ dropWhile ?P (rev ?s)" by simp
  with len have "takeWhile ?P (rev ?s) = rev r"
    by (metis append_eq_append_conv length_rev)
  then have "\<forall>x\<in>set (rev r). x \<noteq> c" by (metis set_takeWhileD)
  then show ?thesis by auto
qed

text \<open>The base path of a remote path that begins with a slash begins with a slash.\<close>

lemma fst_path_Split_slash:
  assumes "remotePath = CHR ''/'' # r"
  shows "\<exists>s. fst (path_Split remotePath) = CHR ''/'' # s"
proof -
  define i where "i = LastIndexByte remotePath (CHR ''/'')"
  have "0 \<le> i" unfolding i_def using assms by (simp add: LastIndexByte_nonneg)
  then have suc: "nat (i + 1) = Suc (nat i)" by simp
  have "fst (path_Split remotePath) = take (nat (i + 1)) remotePath"
    by (simp add: path_Split_def Let_def i_def)
  also have "\<dots> = CHR ''/'' # take (nat i) r"
    by (simp only: suc assms take_Suc_Cons)
  finally show ?thesis by blast
qed

lemma basePath_slash:
  assumes "HasPrefix remotePath ''/''"
    and "basePath = (if \<not> HasSuffix remotePath ''/'' then fst (path_Split remotePath)
                     else remotePath)"
  shows "HasPrefix basePath ''/''"
proof (cases "HasSuffix remotePath ''/''")
  case True
  with assms show ?thesis by simp
next
  case False
  from assms(1) obtain r where r: "remotePath = CHR ''/'' # r" by (auto simp: HasPrefix_slash)
  from fst_path_Split_slash [OF r] False assms(2) show ?thesis
    by (auto simp: HasPrefix_slash)
qed

lemma fst_SplitBucketPrefix_no_slash: "CHR ''/'' \<notin> set (fst (SplitBucketPrefix p))"
proof -
  have "CHR ''/'' \<notin> set (fst (split_spec p))"
    by (auto simp: split_spec_def Let_def dest: set_takeWhileD)
  moreover have "SplitBucketPrefix p = split_spec p"
  proof (cases "p = '''' \<or> p = ''/''")
    case True
    then show ?thesis by (auto simp: SplitBucketPrefix_def split_spec_def)
  next
    case False
    define r where "r = (if hd p = CHR ''/'' then tl p else p)"
    show ?thesis
    proof (cases "CHR ''/'' \<in> set r")
      case True
      with False SplitBucketPrefix_slash [of p r] show ?thesis
        by (simp add: split_spec_def Let_def r_def [symmetric])
    next
      case no: False
      with False SplitBucketPrefix_no_slash [of p r] show ?thesis
        by (simp add: split_spec_def Let_def r_def [symmetric])
    qed
  qed
  ultimately show ?thesis by simp
qed


text \<open>Only the paths \<open>''''\<close>, \<open>/\<close> and \<open>//\<close> have neither a bucket nor a prefix.\<close>

lemma SplitBucketPrefix_empty:
  assumes "SplitBucketPrefix p = ([], [])"
  shows "p = [] \<or> p = ''/'' \<or> p = ''//''"
proof (rule ccontr)
  assume not: "\<not> (p = [] \<or> p = ''/'' \<or> p = ''//'')"
  define r where "r = (if hd p = CHR ''/'' then tl p else p)"
  have r_ne: "r \<noteq> []" using not by (cases p) (auto simp: r_def)
  show False
  proof (cases "CHR ''/'' \<in> set r")
    case False
    with not SplitBucketPrefix_no_slash [of p r] assms r_ne show False
      by (simp add: r_def)
  next
    case True
    with not SplitBucketPrefix_slash [of p r] assms
    have tw: "takeWhile (\<lambda>c. c \<noteq> CHR ''/'') r = []"
      and dw: "tl (dropWhile (\<lambda>c. c \<noteq> CHR ''/'') r) = []"
      by (simp_all add: r_def)
    from tw r_ne have "hd r = CHR ''/''" by (cases r) (auto split: if_splits)
    with r_ne have "dropWhile (\<lambda>c. c \<noteq> CHR ''/'') r = r" by (cases r) auto
    with dw r_ne \<open>hd r = CHR ''/''\<close> have r: "r = ''/''" by (cases r) auto
    show False
    proof (cases "hd p = CHR ''/''")
      case True
      with r not show False by (cases p) (auto simp: r_def)
    next
      case False
      with r not show False by (auto simp: r_def)
    qed
  qed
qed

text \<open>
  When the path of an object listing begins with a slash, its base path is longer than
  \<open>/\<close>.
\<close>

lemma object_branch_base:
  assumes "HasPrefix remotePath ''/''"
    and "SplitBucketPrefix remotePath = (bucket, prefix)"
    and "bucket \<noteq> []" and "prefix \<noteq> [] \<or> HasSuffix remotePath ''/''"
    and "basePath = (if \<not> HasSuffix remotePath ''/'' then fst (path_Split remotePath)
                     else remotePath)"
  shows "basePath \<noteq> ''/''"
proof
  assume base: "basePath = ''/''"
  from assms(1) obtain r where r: "remotePath = CHR ''/'' # r" by (auto simp: HasPrefix_slash)
  show False
  proof (cases "HasSuffix remotePath ''/''")
    case True
    with assms(5) [unfolded base] have "remotePath = ''/''" by simp
    with assms(2,3) show False by (simp add: SplitBucketPrefix_def)
  next
    case False
    with assms(4) have prefix: "prefix \<noteq> []" by simp
    from False r have r_ne: "r \<noteq> []" by (auto simp: HasSuffix_slash)
    define i where "i = LastIndexByte remotePath (CHR ''/'')"
    have nonneg: "0 \<le> i" unfolding i_def using r by (simp add: LastIndexByte_nonneg)
    then have suc: "nat (i + 1) = Suc (nat i)" by simp
    have "fst (path_Split remotePath) = take (nat (i + 1)) remotePath"
      by (simp add: path_Split_def Let_def i_def)
    also have "\<dots> = CHR ''/'' # take (nat i) r"
      by (simp only: suc r take_Suc_Cons)
    finally have "fst (path_Split remotePath) = CHR ''/'' # take (nat i) r" .
    moreover from assms(5) [unfolded base] False
    have "fst (path_Split remotePath) = ''/''" by simp
    ultimately have "take (nat i) r = []" by simp
    with r_ne have "nat i = 0" by simp
    with nonneg have "i = 0" by simp
    then have "CHR ''/'' \<notin> set r"
      using LastIndexByte_zero [of "CHR ''/''" r] by (simp add: i_def r)
    then have "SplitBucketPrefix remotePath = (r, [])"
      by (intro SplitBucketPrefix_no_slash) (simp_all add: r r_ne)
    with assms(2) prefix show False by simp
  qed
qed


subsection \<open>What the walk delivers, and after which backend call\<close>

lemma latest_call_append:
  "latest_call call (xs @ ys) = latest_call (latest_call call xs) ys"
  by (induction call xs rule: latest_call.induct) simp_all

lemma outputs_ok_append:
  "outputs_ok be call (xs @ ys) =
     (outputs_ok be call xs \<and> outputs_ok be (latest_call call xs) ys)"
  by (induction be call xs rule: outputs_ok.induct) simp_all

lemma outputs_ok_later: "outputs_ok be None evs \<Longrightarrow> outputs_ok be call evs"
proof (cases evs)
  case Nil
  then show ?thesis by simp
next
  case (Cons e evs')
  assume "outputs_ok be None evs"
  with Cons show ?thesis by (cases e) simp_all
qed

lemma latest_call_later: "latest_call None evs = Some e \<Longrightarrow> latest_call call evs = Some e"
proof (induction evs)
  case Nil
  then show ?case by simp
next
  case (Cons a evs)
  then show ?case by (cases a) simp_all
qed

text \<open>Deliveries of leaves of the page that the backend call before them answered.\<close>

lemma leaf_deliveries_ok:
  assumes "\<forall>e\<in>set evs. \<exists>p r. e = Delivery p r \<and> p \<in> set (leaf_paths (listed_directory bucket prefix) objs)"
    and "objects be projectRef bucket prefix i = Inr objs"
  shows "outputs_ok be (Some (ObjectsCall projectRef bucket prefix i r')) evs
       \<and> latest_call call evs = call"
  using assms(1)
proof (induction evs)
  case Nil
  then show ?case by simp
next
  case (Cons e evs)
  then obtain p r where e: "e = Delivery p r"
    and p: "p \<in> set (leaf_paths (listed_directory bucket prefix) objs)" by auto
  from p have "HasPrefix p ''/''"
    by (auto simp: leaf_paths_def listed_directory_def HasPrefix_def)
  with p Cons assms(2) show ?case by (simp add: e)
qed

text \<open>
  The callbacks of the walk put a name that ends in a slash on the queue and deliver
  any other name behind the directory path.
\<close>

lemma seed_callback_delivers:
  "\<exists>r. snd (snd (seed_callback basePath (logged_callback policy) name qc w)) =
        (if HasSuffix name ''/'' then w else w @ [Delivery (basePath @ name) r])"
  by (cases qc) (simp add: seed_callback_def logged_callback_def Let_def)

lemma drain_callback_delivers:
  "\<exists>r. snd (snd (drain_callback dirPath (logged_callback policy) name qec w)) =
        (if HasSuffix name ''/'' then w else w @ [Delivery (dirPath @ name) r])"
  by (cases qec) (simp add: drain_callback_def logged_callback_def Let_def)

lemma for_objects_outputs:
  assumes k: "\<And>name c w. \<exists>r. snd (snd (k name c w)) =
                (if HasSuffix name ''/'' then w else w @ [Delivery (dir @ name) r])"
    and "set objs' \<subseteq> set objs"
  shows "\<exists>evs. snd (snd (for_objects k objs' c w)) = w @ evs
           \<and> (\<forall>e\<in>set evs. \<exists>p r. e = Delivery p r \<and> p \<in> set (leaf_paths dir objs))"
  using assms(2)
proof (induction objs' arbitrary: c w)
  case Nil
  then show ?case by simp
next
  case (Cons obj objs')
  obtain r1 c1 w1 where cb: "k (object_name obj) c w = (r1, c1, w1)" by (metis prod.exhaust)
  from k [of "object_name obj" c w] cb obtain r where
    w1: "w1 = (if HasSuffix (object_name obj) ''/'' then w
               else w @ [Delivery (dir @ object_name obj) r])" by auto
  from Cons.prems have obj: "obj \<in> set objs" and rest: "set objs' \<subseteq> set objs" by simp_all
  define evs1 where "evs1 = (if HasSuffix (object_name obj) ''/'' then []
                             else [Delivery (dir @ object_name obj) r])"
  have ext: "w1 = w @ evs1" by (simp add: w1 evs1_def)
  have ok1: "\<forall>e\<in>set evs1. \<exists>p r. e = Delivery p r \<and> p \<in> set (leaf_paths dir objs)"
    using obj by (auto simp: evs1_def leaf_paths_def)
  show ?case
  proof (cases r1)
    case (Some err)
    with cb ext ok1 show ?thesis by auto
  next
    case None
    from Cons.IH [OF rest, of c1 w1] obtain evs2 where
      "snd (snd (for_objects k objs' c1 w1)) = w1 @ evs2"
      "\<forall>e\<in>set evs2. \<exists>p r. e = Delivery p r \<and> p \<in> set (leaf_paths dir objs)" by blast
    with ext ok1 have "snd (snd (for_objects k objs' c1 w1)) = w @ (evs1 @ evs2)"
      "\<forall>e\<in>set (evs1 @ evs2). \<exists>p r. e = Delivery p r \<and> p \<in> set (leaf_paths dir objs)"
      by auto
    with None cb show ?thesis by (simp del: set_append)
  qed
qed

lemma for_buckets_no_output:
  assumes k: "\<And>name c w. \<exists>r. snd (snd (k name c w)) =
                (if HasSuffix name ''/'' then w else w @ [Delivery (dir @ name) r])"
  shows "snd (snd (for_buckets bucket k bs c w)) = w"
proof (induction bs arbitrary: c w)
  case Nil
  show ?case by simp
next
  case (Cons b bs)
  obtain r1 c1 w1 where cb: "k (BucketResponse.Name b @ ''/'') c w = (r1, c1, w1)"
    by (metis prod.exhaust)
  from k [of "BucketResponse.Name b @ ''/''" c w] cb have "w1 = w" by simp
  with cb Cons.IH show ?case by (cases r1) simp_all
qed

text \<open>
  The page loop: every delivery is a leaf of the page listed before it; and when the
  loop has listed a page and has returned without error, the latest backend call is a
  page of this listing that the backend answered.
\<close>

lemma for_pages_outputs:
  assumes k: "\<And>name c w. \<exists>r. snd (snd (k name c w)) =
                (if HasSuffix name ''/'' then w
                 else w @ [Delivery (listed_directory bucket prefix @ name) r])"
  shows "\<exists>evs. snd (snd (for_pages fuel (logged_client be) projectRef bucket prefix k i pages c w))
                 = w @ evs
           \<and> outputs_ok be None evs
           \<and> (\<not> i < pages \<longrightarrow> evs = [])
           \<and> (i < pages \<longrightarrow>
                fst (for_pages fuel (logged_client be) projectRef bucket prefix k i pages c w)
                  = Returned None \<longrightarrow>
                (\<exists>j objs. latest_call None evs = Some (ObjectsCall projectRef bucket prefix j None)
                      \<and> objects be projectRef bucket prefix j = Inr objs))"
proof (induction fuel arbitrary: i pages c w)
  case 0
  show ?case by simp
next
  case (Suc fuel)
  show ?case
  proof (cases "i < pages")
    case False
    then show ?thesis by (simp add: for_pages_done)
  next
    case True
    define ans where "ans = objects be projectRef bucket prefix i"
    define ev where "ev = ObjectsCall projectRef bucket prefix i (error_of ans)"
    have call: "ListStorageObjects (logged_client be) projectRef bucket prefix i w
                  = (ans, w @ [ev])"
      by (simp add: ans_def ev_def)
    show ?thesis
    proof (cases ans)
      case (Inl err)
      have "for_pages (Suc fuel) (logged_client be) projectRef bucket prefix k i pages c w
              = (Returned (Some err), c, w @ [ev])"
        using True call [unfolded Inl] by (rule for_pages_error)
      moreover have "outputs_ok be None [ev]" by (simp add: ev_def)
      ultimately show ?thesis using True by auto
    next
      case (Inr objs)
      then have ev: "ev = ObjectsCall projectRef bucket prefix i None" by (simp add: ev_def)
      have objs: "objects be projectRef bucket prefix i = Inr objs"
        using Inr by (simp add: ans_def)
      define pages' where "pages' = (if length objs = PAGE_LIMIT (logged_client be)
                                       then Suc pages else pages)"
      obtain r2 c2 w2 where fo: "for_objects k objs c (w @ [ev]) = (r2, c2, w2)"
        by (metis prod.exhaust)
      from for_objects_outputs [of k "listed_directory bucket prefix" objs objs c "w @ [ev]", OF k]
        fo obtain evs1 where w2: "w2 = (w @ [ev]) @ evs1"
        and leaves: "\<forall>e\<in>set evs1. \<exists>p r. e = Delivery p r
                        \<and> p \<in> set (leaf_paths (listed_directory bucket prefix) objs)"
        by auto
      from leaf_deliveries_ok [OF leaves objs, of None "Some ev"]
      have ok1: "outputs_ok be (Some ev) evs1" and same: "latest_call (Some ev) evs1 = Some ev"
        by (simp_all add: ev)
      have step: "for_pages (Suc fuel) (logged_client be) projectRef bucket prefix k i pages c w =
          (case r2 of
             Some err \<Rightarrow> (Returned (Some err), c2, w2)
           | None \<Rightarrow> for_pages fuel (logged_client be) projectRef bucket prefix k (Suc i) pages' c2 w2)"
        using for_pages_page [OF True call [unfolded Inr] pages'_def, of fuel k c] fo
        by (simp split: option.splits)
      show ?thesis
      proof (cases r2)
        case (Some err)
        have "outputs_ok be None (ev # evs1)" using ok1 by (simp add: ev)
        moreover have "w2 = w @ (ev # evs1)" by (simp add: w2)
        ultimately show ?thesis using True Some step by auto
      next
        case None
        let ?rest = "for_pages fuel (logged_client be) projectRef bucket prefix k (Suc i) pages' c2 w2"
        from Suc.IH [of "Suc i" pages' c2 w2] obtain evs2 where
          ext2: "snd (snd ?rest) = w2 @ evs2"
          and ok2: "outputs_ok be None evs2"
          and stop: "\<not> Suc i < pages' \<longrightarrow> evs2 = []"
          and more: "Suc i < pages' \<longrightarrow> fst ?rest = Returned None \<longrightarrow>
             (\<exists>j objs. latest_call None evs2 = Some (ObjectsCall projectRef bucket prefix j None)
                   \<and> objects be projectRef bucket prefix j = Inr objs)"
          by blast
        have ext: "snd (snd ?rest) = w @ (ev # evs1 @ evs2)" unfolding ext2 by (simp add: w2)
        have ok: "outputs_ok be None (ev # evs1 @ evs2)"
          using ok1 outputs_ok_later [OF ok2, of "Some ev"]
          by (simp add: ev outputs_ok_append same [unfolded ev])
        have latest: "\<exists>j objs. latest_call None (ev # evs1 @ evs2)
                          = Some (ObjectsCall projectRef bucket prefix j None)
                        \<and> objects be projectRef bucket prefix j = Inr objs"
          if ret: "fst ?rest = Returned None"
        proof (cases "Suc i < pages'")
          case True
          with more ret obtain j objs' where
            j: "latest_call None evs2 = Some (ObjectsCall projectRef bucket prefix j None)"
            and "objects be projectRef bucket prefix j = Inr objs'" by blast
          moreover from latest_call_later [OF j, of "Some ev"]
          have "latest_call None (ev # evs1 @ evs2)
                  = Some (ObjectsCall projectRef bucket prefix j None)"
            by (simp add: ev latest_call_append same [unfolded ev])
          ultimately show ?thesis by blast
        next
          case False
          with stop have "evs2 = []" by simp
          then have "latest_call None (ev # evs1 @ evs2) = Some ev"
            using same by (simp add: ev)
          with objs show ?thesis by (auto simp: ev)
        qed
        show ?thesis
          unfolding step None option.case using ext ok latest True by blast
      qed
    qed
  qed
qed

subsection \<open>The directory path of an object listing\<close>

lemma fst_path_Split: "fst (path_Split s) = rev (dropWhile (\<lambda>c. c \<noteq> CHR ''/'') (rev s))"
proof (cases "CHR ''/'' \<in> set s")
  case False
  then have "dropWhile (\<lambda>c. c \<noteq> CHR ''/'') (rev s) = []" by auto
  with False show ?thesis by (simp add: path_Split_def LastIndexByte_def)
next
  case True
  let ?P = "\<lambda>c. c \<noteq> CHR ''/''"
  define tw where "tw = takeWhile ?P (rev s)"
  define dw where "dw = dropWhile ?P (rev s)"
  have "rev s = tw @ dw" by (simp add: tw_def dw_def)
  then have s: "s = rev dw @ rev tw" by (metis rev_append rev_rev_ident)
  have "nat (LastIndexByte s (CHR ''/'') + 1) = length s - length tw"
    using True length_takeWhile_less [of "CHR ''/''" "rev s"]
    by (simp add: LastIndexByte_def tw_def)
  also have "\<dots> = length (rev dw)" by (simp add: s)
  finally have "fst (path_Split s) = take (length (rev dw)) s"
    by (simp add: path_Split_def Let_def)
  also have "\<dots> = rev dw" by (subst s) simp
  finally show ?thesis by (simp add: dw_def)
qed

lemma fst_path_Split_append:
  "fst (path_Split (a @ CHR ''/'' # s)) = a @ CHR ''/'' # fst (path_Split s)"
proof (cases "CHR ''/'' \<in> set s")
  case True
  then show ?thesis by (simp add: fst_path_Split dropWhile_append)
next
  case False
  then show ?thesis by (simp add: fst_path_Split dropWhile_append)
qed

lemma fst_path_Split_directory:
  assumes "s = [] \<or> last s = CHR ''/''"
  shows "fst (path_Split s) = s"
proof (cases s rule: rev_cases)
  case Nil
  then show ?thesis by (simp add: fst_path_Split)
next
  case (snoc r c)
  with assms show ?thesis by (simp add: fst_path_Split)
qed

lemma listed_directory:
  assumes slash: "HasPrefix p ''/''"
    and split: "SplitBucketPrefix p = (bucket, prefix)"
    and ob: "bucket \<noteq> []" "prefix \<noteq> [] \<or> HasSuffix p ''/''"
  shows "listed_directory bucket prefix = (if HasSuffix p ''/'' then p else fst (path_Split p))"
proof -
  from slash obtain r where p: "p = CHR ''/'' # r" by (auto simp: HasPrefix_slash)
  have ne: "p \<noteq> ''''" "p \<noteq> ''/''" using split ob(1) by (auto simp: SplitBucketPrefix_def)
  have r: "r = (if hd p = CHR ''/'' then tl p else p)" by (simp add: p)
  have r_ne: "r \<noteq> []" using ne p by simp
  let ?P = "\<lambda>c. c \<noteq> CHR ''/''"
  have mem: "CHR ''/'' \<in> set r"
  proof (rule ccontr)
    assume no: "CHR ''/'' \<notin> set r"
    from SplitBucketPrefix_no_slash [OF ne r no] split have "prefix = []" by simp
    with ob(2) have "HasSuffix p ''/''" by simp
    then have "last p = CHR ''/''" by (simp add: HasSuffix_slash)
    with r_ne have "last r = CHR ''/''" by (simp add: p)
    with r_ne no show False by (metis last_in_set)
  qed
  from SplitBucketPrefix_slash [OF ne r mem] split
  have bucket: "bucket = takeWhile ?P r" and prefix: "prefix = tl (dropWhile ?P r)" by simp_all
  from mem have "dropWhile ?P r \<noteq> []" by simp
  moreover from this have "hd (dropWhile ?P r) = CHR ''/''" using hd_dropWhile [of ?P r] by simp
  ultimately have "dropWhile ?P r = CHR ''/'' # prefix"
    by (cases "dropWhile ?P r") (simp_all add: prefix)
  then have "r = bucket @ CHR ''/'' # prefix"
    using takeWhile_dropWhile_id [of ?P r] by (simp add: bucket)
  then have form: "p = (CHR ''/'' # bucket) @ CHR ''/'' # prefix" by (simp add: p)
  show ?thesis
  proof (cases "HasSuffix p ''/''")
    case False
    have "fst (path_Split p) = (CHR ''/'' # bucket) @ CHR ''/'' # fst (path_Split prefix)"
      by (subst form) (rule fst_path_Split_append)
    with False show ?thesis by (simp add: listed_directory_def)
  next
    case True
    then have "last p = CHR ''/''" by (simp add: HasSuffix_slash)
    then have "prefix = [] \<or> last prefix = CHR ''/''" by (subst (asm) form) (simp split: if_splits)
    then have "fst (path_Split prefix) = prefix" by (rule fst_path_Split_directory)
    moreover have "(CHR ''/'' # bucket) @ CHR ''/'' # prefix = p" by (rule form [symmetric])
    ultimately show ?thesis using True by (simp add: listed_directory_def)
  qed
qed

subsection \<open>The directory paths on the queue\<close>

lemma queued_ok_append:
  assumes "queued_ok be projectRef dirPath" and "HasSuffix name ''/''"
  shows "queued_ok be projectRef (dirPath @ name)"
proof -
  from assms(2) have name: "name \<noteq> []" "last name = CHR ''/''" by (simp_all add: HasSuffix_slash)
  then have "1 \<le> length name" by (cases name) simp_all
  with assms(1) have "length (dirPath @ name) \<noteq> length ''//''" by (simp add: queued_ok_def)
  then have "dirPath @ name \<noteq> ''//''" by metis
  moreover have "HasSuffix (dirPath @ name) ''/''" using name by (simp add: HasSuffix_slash)
  ultimately show ?thesis
    using assms(1) by (simp add: queued_ok_def HasPrefix_append_trans)
qed

lemma drain_callback_not_empty:
  "after (\<lambda>(q, e, c) w. \<not> e) (\<lambda>err (q, e, c) w. \<not> e) (drain_callback dirPath callback name qec w)"
proof (cases qec)
  case (fields q e c)
  obtain r c' w' where "callback (dirPath @ name) c w = (r, c', w')" by (metis prod.exhaust)
  with fields show ?thesis
    by (cases r) (simp_all add: drain_callback_def Let_def)
qed

text \<open>
  The listing of \<open>//\<close> is a listing of all buckets; when there is one, the callback is
  called and \<open>empty\<close> is false afterwards.
\<close>

lemma listing_of_slashes_not_empty:
  assumes "buckets be projectRef = Inr bs" and "bs \<noteq> []"
    and "IterateStoragePaths fuel (logged_client be) projectRef ''//''
           (drain_callback ''//'' callback) (q, True, c) w = (st, (q2, e2, c2), w2)"
  shows "\<not> e2"
proof -
  have split: "SplitBucketPrefix ''//'' = ([], [])" by code_simp
  from assms(2) obtain b bs' where bs: "bs = b # bs'" by (cases bs) auto
  let ?w1 = "w @ [BucketsCall projectRef None]"
  let ?I = "\<lambda>(q :: string list, e, c :: 'a) (w :: event list). \<not> e"
  let ?E = "\<lambda>(err :: error) (q :: string list, e, c :: 'a) (w :: event list). \<not> e"
  obtain r1 q1 e1 c1 v1 where first:
    "drain_callback ''//'' callback (BucketResponse.Name b @ ''/'') (q, True, c) ?w1
      = (r1, (q1, e1, c1), v1)" by (metis prod.exhaust)
  from drain_callback_not_empty [of "''//''" callback "BucketResponse.Name b @ ''/''" "(q, True, c)" ?w1]
    first
  have e1: "\<not> e1" by (cases r1) simp_all
  have run: "IterateStoragePaths fuel (logged_client be) projectRef ''//''
           (drain_callback ''//'' callback) (q, True, c) w =
     (case r1 of
        Some err \<Rightarrow> (Returned (Some err), (q1, e1, c1), v1)
      | None \<Rightarrow>
          (case for_buckets [] (drain_callback ''//'' callback) bs' (q1, e1, c1) v1 of
             (r, c2, w2) \<Rightarrow> (Returned r, c2, w2)))"
    using first
    by (simp add: IterateStoragePaths_buckets [OF split] assms(1) bs split: option.splits)
  show ?thesis
  proof (cases r1)
    case (Some err)
    with run assms(3) e1 show ?thesis by simp
  next
    case None
    have "after ?I ?E (for_buckets [] (drain_callback ''//'' callback) bs' (q1, e1, c1) v1)"
      by (rule for_buckets_rule [where I = ?I and E = ?E])
        (use e1 in \<open>auto intro: drain_callback_not_empty\<close>)
    moreover obtain r3 q3 e3 c3 v3 where
      "for_buckets [] (drain_callback ''//'' callback) bs' (q1, e1, c1) v1 = (r3, (q3, e3, c3), v3)"
      by (metis prod.exhaust)
    ultimately show ?thesis
      using None run assms(3) by (cases r3) simp_all
  qed
qed

text \<open>A listing in the queue loop keeps the queue as it should be.\<close>

lemma drain_queue_kept:
  assumes "\<forall>p\<in>set q. queued_ok be projectRef p" and ok: "queued_ok be projectRef dirPath"
    and run: "IterateStoragePaths fuel (logged_client be) projectRef dirPath
            (drain_callback dirPath callback) (q, e, c :: 'c) w = (st, (q2, e2, c2), w2)"
    and "st = OutOfFuel \<or> st = Returned None"
  shows "\<forall>p\<in>set q2. queued_ok be projectRef p"
proof -
  define I where "I = (\<lambda>(q' :: string list, e' :: bool, c' :: 'c) (w' :: event list).
      \<forall>p\<in>set q'. queued_ok be projectRef p)"
  define E where "E = (\<lambda>(err :: error) (qec :: string list \<times> bool \<times> 'c) (w' :: event list).
      True)"
  obtain bucket prefix where split: "SplitBucketPrefix dirPath = (bucket, prefix)"
    by (cases "SplitBucketPrefix dirPath")
  have "after_run I E
         (IterateStoragePaths fuel (logged_client be) projectRef dirPath
            (drain_callback dirPath callback) (q, e, c) w)"
  proof (rule IterateStoragePaths_rule [where I = I and E = E and N = "\<lambda>_. True", OF _ split])
    show "I (q, e, c) w" using assms(1) by (simp add: I_def)
  next
    fix c' w' assume "I c' w'"
    then show "after_call (I c') (\<lambda>err. E err c')
           (\<lambda>bs. \<forall>b\<in>set bs. HasPrefix (BucketResponse.Name b) bucket \<longrightarrow> True)
           (ListStorageBuckets (logged_client be) projectRef w')"
      by (cases "buckets be projectRef") (auto simp: I_def E_def)
  next
    fix i c' w' assume "I c' w'"
    then show "after_call (I c') (\<lambda>err. E err c') (\<lambda>objs. \<forall>o'\<in>set objs. True)
           (ListStorageObjects (logged_client be) projectRef bucket prefix i w')"
      by (cases "objects be projectRef bucket prefix i") (auto simp: I_def E_def)
  next
    fix name c' w' assume I: "I c' w'"
    obtain q' e' cu where c': "c' = (q', e', cu)" by (metis prod.exhaust)
    show "after I E (drain_callback dirPath callback name c' w')"
    proof (cases "HasSuffix name ''/''")
      case True
      with I c' queued_ok_append [OF ok True] show ?thesis
        by (simp add: drain_callback_def I_def)
    next
      case False
      obtain r cu' w'' where "callback (dirPath @ name) cu w' = (r, cu', w'')"
        by (metis prod.exhaust)
      with I c' False show ?thesis
        by (cases r) (simp_all add: drain_callback_def I_def E_def)
    qed
  qed
  with run assms(4) show ?thesis
    by (auto simp: I_def)
qed

text \<open>So does the first listing, of a remote path that begins with a slash.\<close>

lemma seed_queue_kept:
  assumes slash: "HasPrefix remotePath ''/''"
    and basePath: "basePath = (if \<not> HasSuffix remotePath ''/'' then fst (path_Split remotePath)
                     else remotePath)"
    and run: "IterateStoragePaths fuel (logged_client be) projectRef remotePath
            (seed_callback basePath callback) ([], c :: 'c) w = (st, (q1, c1), w1)"
    and "st = OutOfFuel \<or> st = Returned None"
  shows "\<forall>p\<in>set q1. queued_ok be projectRef p"
proof -
  have base: "HasPrefix basePath ''/''" using slash basePath by (rule basePath_slash)
  then obtain s where s: "basePath = CHR ''/'' # s" by (auto simp: HasPrefix_slash)
  define I where "I = (\<lambda>(q' :: string list, c' :: 'c) (w' :: event list).
      \<forall>p\<in>set q'. queued_ok be projectRef p)"
  define E where "E = (\<lambda>(err :: error) (qc :: string list \<times> 'c) (w' :: event list). True)"
  define N where "N = (\<lambda>name. HasSuffix name ''/'' \<longrightarrow> queued_ok be projectRef (basePath @ name))"
  obtain bucket prefix where split: "SplitBucketPrefix remotePath = (bucket, prefix)"
    by (cases "SplitBucketPrefix remotePath")
  have shape: "HasPrefix (basePath @ name) ''/'' \<and> HasSuffix (basePath @ name) ''/''
      \<and> 2 \<le> length (basePath @ name)" if "HasSuffix name ''/''" for name
  proof -
    from that have "name \<noteq> []" "last name = CHR ''/''" by (simp_all add: HasSuffix_slash)
    then show ?thesis
      by (cases name) (simp_all add: s HasPrefix_def HasSuffix_slash)
  qed
  have "after_run I E
         (IterateStoragePaths fuel (logged_client be) projectRef remotePath
            (seed_callback basePath callback) ([], c) w)"
  proof (rule IterateStoragePaths_rule [where I = I and E = E and N = N, OF _ split])
    show "I ([], c) w" by (simp add: I_def)
  next
    fix c' w' assume I: "I c' w'"
    have "N (BucketResponse.Name b @ ''/'')" if "buckets be projectRef = Inr bs" "b \<in> set bs"
      for bs b
    proof -
      from that have "\<exists>bs. buckets be projectRef = Inr bs \<and> bs \<noteq> []" by auto
      with shape [of "BucketResponse.Name b @ ''/''"] show ?thesis
        by (simp add: N_def queued_ok_def del: length_append)
    qed
    with I show "after_call (I c') (\<lambda>err. E err c')
           (\<lambda>bs. \<forall>b\<in>set bs. HasPrefix (BucketResponse.Name b) bucket \<longrightarrow>
                    N (BucketResponse.Name b @ ''/''))
           (ListStorageBuckets (logged_client be) projectRef w')"
      by (cases "buckets be projectRef") (auto simp: I_def E_def)
  next
    fix i c' w' assume I: "I c' w'" and ob: "bucket \<noteq> []" "prefix \<noteq> [] \<or> HasSuffix remotePath ''/''"
    from object_branch_base [OF slash split ob basePath] have "basePath \<noteq> ''/''" .
    with s have s_ne: "s \<noteq> []" by simp
    have "N name" for name
    proof -
      have "queued_ok be projectRef (basePath @ name)" if suffix: "HasSuffix name ''/''"
      proof -
        from suffix have "name \<noteq> []" by (simp add: HasSuffix_slash)
        with s_ne have "basePath @ name \<noteq> ''//''"
          by (cases s; cases name; simp add: s)
        with shape [OF suffix] show ?thesis by (simp add: queued_ok_def del: length_append)
      qed
      then show ?thesis by (simp add: N_def)
    qed
    with I show "after_call (I c') (\<lambda>err. E err c') (\<lambda>objs. \<forall>o'\<in>set objs. N (object_name o'))
           (ListStorageObjects (logged_client be) projectRef bucket prefix i w')"
      by (cases "objects be projectRef bucket prefix i") (auto simp: I_def E_def)
  next
    fix name c' w' assume N: "N name" and I: "I c' w'"
    obtain q' cu where c': "c' = (q', cu)" by (metis prod.exhaust)
    show "after I E (seed_callback basePath callback name c' w')"
    proof (cases "HasSuffix name ''/''")
      case True
      with N I c' show ?thesis by (simp add: seed_callback_def I_def N_def)
    next
      case False
      obtain r cu' w'' where "callback (basePath @ name) cu w' = (r, cu', w'')"
        by (metis prod.exhaust)
      with I c' False show ?thesis
        by (cases r) (simp_all add: seed_callback_def I_def E_def)
    qed
  qed
  with run assms(4) show ?thesis
    by (auto simp: I_def)
qed

subsection \<open>The deliveries of a listing and of the walk\<close>

lemma IterateStoragePaths_outputs:
  assumes slash: "HasPrefix p ''/''"
    and split: "SplitBucketPrefix p = (bucket, prefix)"
    and k: "\<And>name c w. \<exists>r. snd (snd (k name c w)) =
              (if HasSuffix name ''/'' then w
               else w @ [Delivery ((if HasSuffix p ''/'' then p else fst (path_Split p)) @ name) r])"
  shows "\<exists>evs. snd (snd (IterateStoragePaths fuel (logged_client be) projectRef p k c w)) = w @ evs
           \<and> outputs_ok be None evs
           \<and> (bucket \<noteq> [] \<longrightarrow> prefix \<noteq> [] \<or> HasSuffix p ''/'' \<longrightarrow>
                fst (IterateStoragePaths fuel (logged_client be) projectRef p k c w)
                  = Returned None \<longrightarrow>
                (\<exists>j objs. latest_call None evs = Some (ObjectsCall projectRef bucket prefix j None)
                      \<and> objects be projectRef bucket prefix j = Inr objs))"
proof (cases "bucket = [] \<or> (prefix = [] \<and> \<not> HasSuffix p ''/'')")
  case True
  note branch = IterateStoragePaths_buckets [OF split True]
  let ?ev = "BucketsCall projectRef (error_of (buckets be projectRef))"
  have "snd (snd (IterateStoragePaths fuel (logged_client be) projectRef p k c w)) = w @ [?ev]"
  proof (cases "buckets be projectRef")
    case (Inl err)
    then show ?thesis by (simp add: branch)
  next
    case (Inr bs)
    obtain r2 c2 w2 where fb: "for_buckets bucket k bs c (w @ [?ev]) = (r2, c2, w2)"
      by (metis prod.exhaust)
    with for_buckets_no_output [of k _ bucket bs c "w @ [?ev]", OF k]
    have "w2 = w @ [?ev]" by simp
    with fb show ?thesis by (simp add: branch Inr)
  qed
  moreover have "outputs_ok be None [?ev]" by simp
  ultimately show ?thesis using True by auto
next
  case False
  then have ob: "bucket \<noteq> []" "prefix \<noteq> [] \<or> HasSuffix p ''/''" by auto
  have dir: "listed_directory bucket prefix = (if HasSuffix p ''/'' then p else fst (path_Split p))"
    using slash split ob by (rule listed_directory)
  have k': "\<exists>r. snd (snd (k name c w)) =
              (if HasSuffix name ''/'' then w
               else w @ [Delivery (listed_directory bucket prefix @ name) r])" for name c w
    unfolding dir by (rule k)
  from for_pages_outputs [of k bucket prefix fuel be projectRef 0 "Suc 0" c w, OF k']
  show ?thesis unfolding IterateStoragePaths_objects [OF split ob] by auto
qed

text \<open>
  The marker of a queued directory path without prefix follows a page of its bucket,
  and it does not begin with a slash.
\<close>

lemma marker_output_after:
  assumes ok: "queued_ok be projectRef dirPath"
    and prefix: "snd (SplitBucketPrefix dirPath) = []"
    and bucket: "fst (SplitBucketPrefix dirPath) \<noteq> []"
    and latest: "\<exists>j objs. call = Some (ObjectsCall projectRef (fst (SplitBucketPrefix dirPath))
                                      (snd (SplitBucketPrefix dirPath)) j None)
                   \<and> objects be projectRef (fst (SplitBucketPrefix dirPath))
                        (snd (SplitBucketPrefix dirPath)) j = Inr objs"
  shows "output_after be call (fst (SplitBucketPrefix dirPath) @ ''/'')"
proof -
  define b where "b = fst (SplitBucketPrefix dirPath)"
  have "CHR ''/'' \<notin> set b" unfolding b_def by (rule fst_SplitBucketPrefix_no_slash)
  with bucket have "\<not> HasPrefix (b @ ''/'') ''/''"
    by (cases b) (auto simp: HasPrefix_def b_def)
  with latest prefix show ?thesis by (auto simp: b_def)
qed

lemma drain_outputs:
  assumes "\<forall>p\<in>set dirQueue. queued_ok be projectRef p"
  shows "\<exists>evs. snd (snd (drain fuel (logged_client be) projectRef (logged_callback policy)
                          dirQueue (c :: 'c) w)) = w @ evs
           \<and> outputs_ok be None evs"
  using assms
proof (induction fuel arbitrary: dirQueue c w)
  case 0
  show ?case by simp
next
  case (Suc fuel)
  show ?case
  proof (cases dirQueue rule: rev_cases)
    case Nil
    then show ?thesis by (simp add: drain_Nil)
  next
    case (snoc q dirPath)
    with Suc.prems have ok: "queued_ok be projectRef dirPath"
      and q_ok: "\<forall>p\<in>set q. queued_ok be projectRef p" by simp_all
    from ok have slash: "HasPrefix dirPath ''/''" and suffix: "HasSuffix dirPath ''/''"
      by (simp_all add: queued_ok_def)
    let ?k = "drain_callback dirPath (logged_callback policy)"
    let ?bucket = "fst (SplitBucketPrefix dirPath)"
    let ?prefix = "snd (SplitBucketPrefix dirPath)"
    let ?marker = "?bucket @ ''/''"
    obtain st q2 e2 c2 w2 where inner:
      "IterateStoragePaths fuel (logged_client be) projectRef dirPath ?k (q, True, c) w
         = (st, (q2, e2, c2), w2)"
      by (metis prod.exhaust)
    have k: "\<exists>r. snd (snd (?k name qec w')) =
              (if HasSuffix name ''/'' then w'
               else w' @ [Delivery ((if HasSuffix dirPath ''/'' then dirPath
                                     else fst (path_Split dirPath)) @ name) r])" for name qec w'
      using drain_callback_delivers [of dirPath policy name qec w'] suffix by simp
    from IterateStoragePaths_outputs [of dirPath ?bucket ?prefix ?k fuel be projectRef "(q, True, c)" w,
        OF slash _ k] inner suffix
    obtain evs1 where w2: "w2 = w @ evs1" and ok1: "outputs_ok be None evs1"
      and latest: "?bucket \<noteq> [] \<Longrightarrow> st = Returned None \<Longrightarrow>
           \<exists>j objs. latest_call None evs1 = Some (ObjectsCall projectRef ?bucket ?prefix j None)
                  \<and> objects be projectRef ?bucket ?prefix j = Inr objs"
      by auto
    show ?thesis
    proof (cases st)
      case OutOfFuel
      with inner w2 ok1 show ?thesis unfolding snoc by (auto simp: drain_step)
    next
      case (Returned r)
      show ?thesis
      proof (cases r)
        case (Some err)
        with Returned inner w2 ok1 show ?thesis unfolding snoc by (auto simp: drain_step)
      next
        case None
        from drain_queue_kept [OF q_ok ok inner] Returned None
        have q2: "\<forall>p\<in>set q2. queued_ok be projectRef p" by simp
        show ?thesis
        proof (cases "e2 \<and> ?prefix = []")
          case False
          from Suc.IH [OF q2, of c2 w2] obtain evs2 where
            "snd (snd (drain fuel (logged_client be) projectRef (logged_callback policy) q2 c2 w2))
               = w2 @ evs2" "outputs_ok be None evs2" by blast
          with w2 ok1 have
            "snd (snd (drain fuel (logged_client be) projectRef (logged_callback policy) q2 c2 w2))
               = w @ (evs1 @ evs2)" "outputs_ok be None (evs1 @ evs2)"
            by (simp_all add: outputs_ok_append outputs_ok_later)
          with False Returned None inner show ?thesis
            unfolding snoc by (auto simp: drain_step)
        next
          case True
          have bucket: "?bucket \<noteq> []"
          proof
            assume "?bucket = []"
            with True have "SplitBucketPrefix dirPath = ([], [])" by (simp add: prod_eq_iff)
            from SplitBucketPrefix_empty [OF this] ok have slashes: "dirPath = ''//''"
              by (auto simp: queued_ok_def)
            with ok obtain bs where "buckets be projectRef = Inr bs" "bs \<noteq> []"
              by (auto simp: queued_ok_def)
            from listing_of_slashes_not_empty [OF this inner [unfolded slashes]] True
            show False by simp
          qed
          from latest [OF bucket] Returned None
          have "\<exists>j objs. latest_call None evs1
                    = Some (ObjectsCall projectRef ?bucket ?prefix j None)
                  \<and> objects be projectRef ?bucket ?prefix j = Inr objs" by simp
          with ok True bucket have out: "output_after be (latest_call None evs1) ?marker"
            by (intro marker_output_after) simp_all
          let ?r = "policy (deliveries w2) ?marker"
          let ?w3 = "w2 @ [Delivery ?marker ?r]"
          have cb: "logged_callback policy ?marker c2 w2 = (?r, c2, ?w3)"
            by (simp add: logged_callback_apply)
          have ok3: "outputs_ok be None (evs1 @ [Delivery ?marker ?r])"
            using ok1 out by (simp add: outputs_ok_append)
          have w3: "?w3 = w @ (evs1 @ [Delivery ?marker ?r])" by (simp add: w2)
          show ?thesis
          proof (cases ?r)
            case (Some err)
            have "drain (Suc fuel) (logged_client be) projectRef (logged_callback policy)
                    (q @ [dirPath]) c w = (Returned (Some err), c2, ?w3)"
              using True Returned \<open>r = None\<close> inner Some by (simp add: drain_step cb)
            with ok3 w3 show ?thesis unfolding snoc by (metis snd_conv)
          next
            case no_error: None
            have step: "drain (Suc fuel) (logged_client be) projectRef (logged_callback policy)
                    (q @ [dirPath]) c w =
                  drain fuel (logged_client be) projectRef (logged_callback policy) q2 c2 ?w3"
              using True Returned \<open>r = None\<close> inner no_error by (simp add: drain_step cb)
            from Suc.IH [OF q2, of c2 ?w3] obtain evs2 where
              ext: "snd (snd (drain fuel (logged_client be) projectRef (logged_callback policy)
                                q2 c2 ?w3)) = ?w3 @ evs2"
              and ok2: "outputs_ok be None evs2" by blast
            have "?w3 @ evs2 = w @ ((evs1 @ [Delivery ?marker ?r]) @ evs2)" by (simp add: w2)
            moreover have "outputs_ok be None ((evs1 @ [Delivery ?marker ?r]) @ evs2)"
              unfolding outputs_ok_append [of be None "evs1 @ [Delivery ?marker ?r]" evs2]
              using ok3 outputs_ok_later [OF ok2] by blast
            ultimately have "\<exists>evs. snd (snd (drain fuel (logged_client be) projectRef
                  (logged_callback policy) q2 c2 ?w3)) = w @ evs \<and> outputs_ok be None evs"
              unfolding ext by blast
            then show ?thesis unfolding snoc step by blast
          qed
        qed
      qed
    qed
  qed
qed

lemma walk_outputs:
  assumes slash: "HasPrefix remotePath ''/''"
  shows "\<exists>evs. snd (snd (IterateStoragePathsAll fuel (logged_client be) projectRef remotePath
                          (logged_callback policy) (c :: 'c) log)) = log @ evs
           \<and> outputs_ok be None evs"
proof -
  define basePath where
    "basePath = (if \<not> HasSuffix remotePath ''/'' then fst (path_Split remotePath) else remotePath)"
  let ?k = "seed_callback basePath (logged_callback policy)"
  obtain st q1 c1 w1 where seed:
    "IterateStoragePaths fuel (logged_client be) projectRef remotePath ?k ([], c) log
       = (st, (q1, c1), w1)"
    by (metis prod.exhaust)
  have k: "\<exists>r. snd (snd (?k name qc w')) =
            (if HasSuffix name ''/'' then w'
             else w' @ [Delivery ((if HasSuffix remotePath ''/'' then remotePath
                                   else fst (path_Split remotePath)) @ name) r])" for name qc w'
  proof -
    have "(if HasSuffix remotePath ''/'' then remotePath else fst (path_Split remotePath))
            = basePath" by (simp add: basePath_def)
    then show ?thesis by (simp only: seed_callback_delivers)
  qed
  from IterateStoragePaths_outputs [of remotePath "fst (SplitBucketPrefix remotePath)"
      "snd (SplitBucketPrefix remotePath)" ?k fuel be projectRef "([], c)" log, OF slash _ k] seed
  obtain evs1 where w1: "w1 = log @ evs1" and ok1: "outputs_ok be None evs1" by auto
  have unfold: "IterateStoragePathsAll fuel (logged_client be) projectRef remotePath
       (logged_callback policy) c log =
     (case st of
        OutOfFuel \<Rightarrow> (OutOfFuel, c1, w1)
      | Returned (Some err) \<Rightarrow> (Returned (Some err), c1, w1)
      | Returned None \<Rightarrow> drain fuel (logged_client be) projectRef (logged_callback policy) q1 c1 w1)"
    by (simp add: IterateStoragePathsAll_def basePath_def [symmetric] seed
        split: run.splits option.splits)
  show ?thesis
  proof (cases st)
    case OutOfFuel
    with w1 ok1 show ?thesis by (auto simp: unfold)
  next
    case (Returned r)
    show ?thesis
    proof (cases r)
      case (Some err)
      with Returned w1 ok1 show ?thesis by (auto simp: unfold)
    next
      case None
      from seed_queue_kept [OF slash basePath_def seed] Returned None
      have "\<forall>p\<in>set q1. queued_ok be projectRef p" by simp
      from drain_outputs [OF this, of fuel policy c1 w1] obtain evs2 where
        ext: "snd (snd (drain fuel (logged_client be) projectRef (logged_callback policy) q1 c1 w1))
               = w1 @ evs2"
        and ok2: "outputs_ok be None evs2" by blast
      have "w1 @ evs2 = log @ (evs1 @ evs2)" by (simp add: w1)
      moreover have "outputs_ok be None (evs1 @ evs2)"
        unfolding outputs_ok_append using ok1 outputs_ok_later [OF ok2] by blast
      ultimately show ?thesis
        unfolding unfold Returned None run.case option.case ext by blast
    qed
  qed
qed

text \<open>
  C10. In a walk whose remote path begins with a slash, whatever the backend answers
  and the consumer does and at any amount of fuel, every delivery follows a page of
  objects that the backend answered, no other backend call being in between, and it is
  one of two things. If it begins with a slash it is a leaf of that page: the directory
  path of the listing followed, with nothing changed, by the name of an entry of the
  page that does not end in a slash. If it does not begin with a slash it is the marker
  of the bucket just listed under an empty prefix: the bucket name followed by one
  slash. The directory path of a listing is the queued directory path itself, and the
  base path for the start path. So the leaves keep the leading slash of the remote path
  and the markers have none.
\<close>

theorem leaves_and_markers:
  assumes "HasPrefix remotePath ''/''"
  shows "(\<exists>evs. snd (snd (IterateStoragePathsAll fuel (logged_client be) projectRef remotePath
                        (logged_callback policy) c log)) = log @ evs
            \<and> outputs_ok be None evs)
       \<and> (HasPrefix dirPath ''/'' \<and> SplitBucketPrefix dirPath = (bucket, prefix)
            \<and> bucket \<noteq> [] \<and> (prefix \<noteq> [] \<or> HasSuffix dirPath ''/'') \<longrightarrow>
          listed_directory bucket prefix =
            (if HasSuffix dirPath ''/'' then dirPath else fst (path_Split dirPath)))"
proof (intro conjI impI)
  show "\<exists>evs. snd (snd (IterateStoragePathsAll fuel (logged_client be) projectRef remotePath
                        (logged_callback policy) c log)) = log @ evs
            \<and> outputs_ok be None evs"
    using assms by (rule walk_outputs)
next
  assume "HasPrefix dirPath ''/'' \<and> SplitBucketPrefix dirPath = (bucket, prefix)
            \<and> bucket \<noteq> [] \<and> (prefix \<noteq> [] \<or> HasSuffix dirPath ''/'')"
  then show "listed_directory bucket prefix =
            (if HasSuffix dirPath ''/'' then dirPath else fst (path_Split dirPath))"
    by (intro listed_directory) simp_all
qed


theorem leaves_and_markers_witness:
  "HasPrefix ''/'' ''/''
   \<and> IterateStoragePathsAll 5 (logged_client backend_two) ''ref'' ''/''
        (logged_callback (\<lambda>_ _. None)) () [] =
       (Returned None, (),
        [BucketsCall ''ref'' None,
         ObjectsCall ''ref'' ''b'' [] 0 None, Delivery ''b/'' None,
         ObjectsCall ''ref'' ''a'' [] 0 None, Delivery ''/a/x.txt'' None,
         Delivery ''/a/yard.txt'' None,
         ObjectsCall ''ref'' ''a'' ''y/'' 0 None, Delivery ''/a/y/z.txt'' None])
   \<and> outputs_ok backend_two None
        [BucketsCall ''ref'' None,
         ObjectsCall ''ref'' ''b'' [] 0 None, Delivery ''b/'' None,
         ObjectsCall ''ref'' ''a'' [] 0 None, Delivery ''/a/x.txt'' None,
         Delivery ''/a/yard.txt'' None,
         ObjectsCall ''ref'' ''a'' ''y/'' 0 None, Delivery ''/a/y/z.txt'' None]
   \<and> HasPrefix ''/a/y'' ''/''
   \<and> IterateStoragePathsAll 5 (logged_client backend_two) ''ref'' ''/a/y''
        (logged_callback (\<lambda>_ _. None)) () [] =
       (Returned None, (),
        [ObjectsCall ''ref'' ''a'' ''y'' 0 None, Delivery ''/a/yard.txt'' None,
         ObjectsCall ''ref'' ''a'' ''y/'' 0 None, Delivery ''/a/y/z.txt'' None])
   \<and> outputs_ok backend_two None
        [ObjectsCall ''ref'' ''a'' ''y'' 0 None, Delivery ''/a/yard.txt'' None,
         ObjectsCall ''ref'' ''a'' ''y/'' 0 None, Delivery ''/a/y/z.txt'' None]
   \<and> SplitBucketPrefix ''/a/y'' = (''a'', ''y'')
   \<and> listed_directory ''a'' ''y'' = ''/a/''
   \<and> SplitBucketPrefix ''/a/y/'' = (''a'', ''y/'')
   \<and> listed_directory ''a'' ''y/'' = ''/a/y/''"
proof -
  let ?log1 = "[BucketsCall ''ref'' None,
         ObjectsCall ''ref'' ''b'' [] 0 None, Delivery ''b/'' None,
         ObjectsCall ''ref'' ''a'' [] 0 None, Delivery ''/a/x.txt'' None,
         Delivery ''/a/yard.txt'' None,
         ObjectsCall ''ref'' ''a'' ''y/'' 0 None, Delivery ''/a/y/z.txt'' None]"
  let ?log2 = "[ObjectsCall ''ref'' ''a'' ''y'' 0 None, Delivery ''/a/yard.txt'' None,
         ObjectsCall ''ref'' ''a'' ''y/'' 0 None, Delivery ''/a/y/z.txt'' None]"
  have 1: "HasPrefix ''/'' ''/''" by code_simp
  have 2: "HasPrefix ''/a/y'' ''/''" by code_simp
  have 3: "SplitBucketPrefix ''/a/y'' = (''a'', ''y'')" by code_simp
  have 4: "SplitBucketPrefix ''/a/y/'' = (''a'', ''y/'')" by code_simp
  have 5: "\<not> HasSuffix ''/a/y'' ''/''" by code_simp
  have 6: "HasSuffix ''/a/y/'' ''/''" by code_simp
  have 7: "fst (path_Split ''/a/y'') = ''/a/''" by code_simp
  have 8: "HasPrefix ''/a/y/'' ''/''" by code_simp
  have run1: "IterateStoragePathsAll 5 (logged_client backend_two) ''ref'' ''/''
        (logged_callback (\<lambda>_ _. None)) () [] = (Returned None, (), ?log1)"
    by code_simp
  have run2: "IterateStoragePathsAll 5 (logged_client backend_two) ''ref'' ''/a/y''
        (logged_callback (\<lambda>_ _. None)) () [] = (Returned None, (), ?log2)"
    by code_simp
  note first = leaves_and_markers [where remotePath = "''/''" and fuel = 5 and be = backend_two
      and projectRef = "''ref''" and policy = "\<lambda>_ _. None" and c = "()" and log = "[]"
      and dirPath = "''/a/y''" and bucket = "''a''" and prefix = "''y''", OF 1]
  note second = leaves_and_markers [where remotePath = "''/a/y''" and fuel = 5 and be = backend_two
      and projectRef = "''ref''" and policy = "\<lambda>_ _. None" and c = "()" and log = "[]"
      and dirPath = "''/a/y/''" and bucket = "''a''" and prefix = "''y/''", OF 2]
  from first obtain evs1 where "?log1 = evs1" "outputs_ok backend_two None evs1"
    unfolding run1 snd_conv append_Nil by blast
  then have ok1: "outputs_ok backend_two None ?log1" by (simp only:)
  from second obtain evs2 where "?log2 = evs2" "outputs_ok backend_two None evs2"
    unfolding run2 snd_conv append_Nil by blast
  then have ok2: "outputs_ok backend_two None ?log2" by (simp only:)
  have "''y'' \<noteq> [] \<or> HasSuffix ''/a/y'' ''/''" by simp
  with first 2 3 have "listed_directory ''a'' ''y'' =
      (if HasSuffix ''/a/y'' ''/'' then ''/a/y'' else fst (path_Split ''/a/y''))" by blast
  then have dir1: "listed_directory ''a'' ''y'' = ''/a/''" by (simp only: 5 7 if_False)
  have "''y/'' \<noteq> [] \<or> HasSuffix ''/a/y/'' ''/''" by simp
  with second 8 4 have "listed_directory ''a'' ''y/'' =
      (if HasSuffix ''/a/y/'' ''/'' then ''/a/y/'' else fst (path_Split ''/a/y/''))" by blast
  then have dir2: "listed_directory ''a'' ''y/'' = ''/a/y/''" by (simp only: 6 if_True)
  show ?thesis
    by (intro conjI) (fact 1 2 3 4 run1 run2 ok1 ok2 dir1 dir2)+
qed

text \<open>
  A marker written as the queued directory path, with its leading slash, is not among
  the deliveries described: no entry of the empty page gives a leaf.
\<close>

lemma marker_with_slash_refused:
  "\<not> outputs_ok backend_two None [ObjectsCall ''ref'' ''b'' [] 0 None, Delivery ''/b/'' None]"
  by code_simp


end
